theory Spec2Isabelle
  imports Main "HOL-Library.Sublist"
begin

section \<open>Strings and the library functions the tools call\<close>

text \<open>
  A Go string is a sequence of bytes; it is modelled as \<open>string\<close> (a list of \<open>char\<close>,
  one per byte). The lines handled below are the tokens that \<open>bufio.Scanner\<close> delivers
  through \<open>scanner.Text()\<close>: the line without its terminator.
\<close>

definition quote :: char where
  "quote = CHR 0x22"

text \<open>
  \<open>strings.TrimSpace\<close> removes leading and trailing white space as defined by Unicode
  (\<open>unicode.IsSpace\<close>). The white-space runes, in their UTF-8 encoding: tab, line feed,
  vertical tab, form feed, carriage return, space, U+0085, U+00A0, U+1680,
  U+2000 to U+200A, U+2028, U+2029, U+202F, U+205F and U+3000. A byte sequence that is not
  the encoding of one of these runes is never trimmed (an invalid byte decodes to U+FFFD).
\<close>

definition spaceRunes :: "string list" where
  "spaceRunes =
     [[CHR 0x09], [CHR 0x0A], [CHR 0x0B], [CHR 0x0C], [CHR 0x0D], [CHR 0x20],
      [CHR 0xC2, CHR 0x85], [CHR 0xC2, CHR 0xA0],
      [CHR 0xE1, CHR 0x9A, CHR 0x80],
      [CHR 0xE2, CHR 0x80, CHR 0x80], [CHR 0xE2, CHR 0x80, CHR 0x81],
      [CHR 0xE2, CHR 0x80, CHR 0x82], [CHR 0xE2, CHR 0x80, CHR 0x83],
      [CHR 0xE2, CHR 0x80, CHR 0x84], [CHR 0xE2, CHR 0x80, CHR 0x85],
      [CHR 0xE2, CHR 0x80, CHR 0x86], [CHR 0xE2, CHR 0x80, CHR 0x87],
      [CHR 0xE2, CHR 0x80, CHR 0x88], [CHR 0xE2, CHR 0x80, CHR 0x89],
      [CHR 0xE2, CHR 0x80, CHR 0x8A],
      [CHR 0xE2, CHR 0x80, CHR 0xA8], [CHR 0xE2, CHR 0x80, CHR 0xA9],
      [CHR 0xE2, CHR 0x80, CHR 0xAF],
      [CHR 0xE2, CHR 0x81, CHR 0x9F],
      [CHR 0xE3, CHR 0x80, CHR 0x80]]"

definition leadingSpace :: "string \<Rightarrow> string option" where
  "leadingSpace s = find (\<lambda>w. w \<noteq> [] \<and> take (length w) s = w) spaceRunes"

definition trailingSpace :: "string \<Rightarrow> string option" where
  "trailingSpace s = find (\<lambda>w. w \<noteq> [] \<and> drop (length s - length w) s = w) spaceRunes"

function TrimLeft :: "string \<Rightarrow> string" where
  "TrimLeft s = (case leadingSpace s of None \<Rightarrow> s | Some w \<Rightarrow> TrimLeft (drop (length w) s))"
  by pat_completeness auto
termination
proof (relation "measure length")
  show "wf (measure length)" by simp
next
  fix s w assume "leadingSpace s = Some w"
  then have "w \<noteq> []" and "take (length w) s = w"
    by (auto simp: leadingSpace_def find_Some_iff)
  then have "s \<noteq> []" by auto
  with \<open>w \<noteq> []\<close> show "(drop (length w) s, s) \<in> measure length" by simp
qed

function TrimRight :: "string \<Rightarrow> string" where
  "TrimRight s =
     (case trailingSpace s of None \<Rightarrow> s | Some w \<Rightarrow> TrimRight (take (length s - length w) s))"
  by pat_completeness auto
termination
proof (relation "measure length")
  show "wf (measure length)" by simp
next
  fix s w assume "trailingSpace s = Some w"
  then have "w \<noteq> []" and "drop (length s - length w) s = w"
    by (auto simp: trailingSpace_def find_Some_iff)
  then have "s \<noteq> []" by auto
  with \<open>w \<noteq> []\<close> show "(take (length s - length w) s, s) \<in> measure length" by simp
qed

definition TrimSpace :: "string \<Rightarrow> string" where
  "TrimSpace s = TrimRight (TrimLeft s)"

definition HasPrefix :: "string \<Rightarrow> string \<Rightarrow> bool" where
  "HasPrefix s p \<longleftrightarrow> length p \<le> length s \<and> take (length p) s = p"

definition HasSuffix :: "string \<Rightarrow> string \<Rightarrow> bool" where
  "HasSuffix s x \<longleftrightarrow> length x \<le> length s \<and> drop (length s - length x) s = x"

definition TrimSuffix :: "string \<Rightarrow> string \<Rightarrow> string" where
  "TrimSuffix s x = (if HasSuffix s x then take (length s - length x) s else s)"

section \<open>The pattern \<open>kvPattern\<close>\<close>

text \<open>
  Every tool compiles the same regular expression,
  \<^verbatim>\<open>"([^"]+)"\s*=\s*"([^"]+)"\s*;\<close>, and calls \<open>FindStringSubmatch\<close> on the line.
  In Go's syntax \<^verbatim>\<open>\s\<close> is the ASCII class of tab, line feed, form feed, carriage return
  and space. At a fixed start position the pattern has at most one match: a run
  \<^verbatim>\<open>[^"]+\<close> must be followed by a quote, so it is the whole run of non-quote bytes, and a run
  \<^verbatim>\<open>\s*\<close> must be followed by a byte that is not white space. \<open>kvPattern_matchAt\<close>
  follows the pattern from the front of its argument and returns the two groups.
\<close>

definition reSpace :: "char \<Rightarrow> bool" where
  "reSpace c \<longleftrightarrow> c = CHR 0x09 \<or> c = CHR 0x0A \<or> c = CHR 0x0C \<or> c = CHR 0x0D \<or> c = CHR 0x20"

definition notQuote :: "char \<Rightarrow> bool" where
  "notQuote c \<longleftrightarrow> c \<noteq> quote"

text \<open>The literal byte \<open>c\<close>: the rest of the input after it.\<close>

fun lit :: "char \<Rightarrow> string \<Rightarrow> string option" where
  "lit c [] = None"
| "lit c (x # s) = (if x = c then Some s else None)"

text \<open>The group \<^verbatim>\<open>([^"]+)\<close>: the run and the rest, or no match when the run is empty.\<close>

definition group :: "string \<Rightarrow> (string \<times> string) option" where
  "group s = (if takeWhile notQuote s = [] then None
              else Some (takeWhile notQuote s, dropWhile notQuote s))"

definition kvPattern_matchAt :: "string \<Rightarrow> (string \<times> string) option" where
  "kvPattern_matchAt s =
     (case lit quote s of None \<Rightarrow> None | Some s1 \<Rightarrow>
      case group s1 of None \<Rightarrow> None | Some (key, s2) \<Rightarrow>
      case lit quote s2 of None \<Rightarrow> None | Some s3 \<Rightarrow>
      case lit (CHR ''='') (dropWhile reSpace s3) of None \<Rightarrow> None | Some s4 \<Rightarrow>
      case lit quote (dropWhile reSpace s4) of None \<Rightarrow> None | Some s5 \<Rightarrow>
      case group s5 of None \<Rightarrow> None | Some (val, s6) \<Rightarrow>
      case lit quote s6 of None \<Rightarrow> None | Some s7 \<Rightarrow>
      case lit (CHR '';'') (dropWhile reSpace s7) of None \<Rightarrow> None | Some _ \<Rightarrow>
      Some (key, val))"

text \<open>
  \<open>FindStringSubmatch\<close> returns the leftmost match: the start positions are tried from
  the left. Its result in Go is \<open>nil\<close> or a slice of length 3 (the match and the two
  groups); the model returns the two groups, so \<open>len(matches) == 3\<close> is \<open>Some\<close>.
\<close>

fun kvPattern_FindStringSubmatch :: "string \<Rightarrow> (string \<times> string) option" where
  "kvPattern_FindStringSubmatch [] = None"
| "kvPattern_FindStringSubmatch (c # s) =
     (case kvPattern_matchAt (c # s) of
        Some m \<Rightarrow> Some m
      | None \<Rightarrow> kvPattern_FindStringSubmatch s)"

text \<open>
  The pattern as a relation, read off the regular expression: the input starts with a
  quote, a non-empty key without quote, a quote, white space, an equals sign, white space,
  a quote, a non-empty value without quote, a quote, white space and a semicolon.
\<close>

definition kvPattern_matches :: "string \<Rightarrow> string \<Rightarrow> string \<Rightarrow> bool" where
  "kvPattern_matches s key val \<longleftrightarrow>
     (\<exists>ws1 ws2 ws3 rest.
        s = quote # key @ quote # ws1 @ CHR ''='' # ws2 @ quote # val @ quote # ws3 @ CHR '';'' # rest
        \<and> key \<noteq> [] \<and> quote \<notin> set key \<and> val \<noteq> [] \<and> quote \<notin> set val
        \<and> list_all reSpace ws1 \<and> list_all reSpace ws2 \<and> list_all reSpace ws3)"


section \<open>The classification of a line\<close>

text \<open>
  Each loop of the three tools classifies a line by the same three-way branch: a line
  that is empty after \<open>TrimSpace\<close> or starts with \<open>//\<close> is skipped (or copied); otherwise
  the pattern is searched in the untrimmed line.
\<close>

datatype lineClass = Passthrough | Entry string string | Unrecognized

definition isCommentOrBlank :: "string \<Rightarrow> bool" where
  "isCommentOrBlank line \<longleftrightarrow>
     (let trimmedLine = TrimSpace line in trimmedLine = [] \<or> HasPrefix trimmedLine ''//'')"

definition classify :: "string \<Rightarrow> lineClass" where
  "classify line =
     (if isCommentOrBlank line then Passthrough
      else case kvPattern_FindStringSubmatch line of
             Some (key, val) \<Rightarrow> Entry key val
           | None \<Rightarrow> Unrecognized)"

section \<open>Path functions of \<open>path/filepath\<close>\<close>

text \<open>
  \<open>main\<close> compares the two paths after \<open>filepath.Clean\<close> and builds the suggested name
  with \<open>Dir\<close>, \<open>Base\<close>, \<open>Ext\<close> and \<open>Join\<close>. They are modelled for the separator \<open>/\<close>
  (no volume names). \<open>Clean\<close> works on the elements between separators: empty elements
  and \<open>.\<close> are dropped, \<open>..\<close> removes the element before it, is dropped at the root and
  is kept at the front of a relative path; an empty result is \<open>.\<close>.
\<close>

fun splitSep :: "string \<Rightarrow> string list" where
  "splitSep [] = [[]]"
| "splitSep (c # s) =
     (if c = CHR ''/'' then [] # splitSep s
      else case splitSep s of e # es \<Rightarrow> (c # e) # es | [] \<Rightarrow> [[c]])"

fun joinSep :: "string list \<Rightarrow> string" where
  "joinSep [] = []"
| "joinSep [e] = e"
| "joinSep (e # es) = e @ CHR ''/'' # joinSep es"

text \<open>\<open>out\<close> holds the elements written so far, the last one first.\<close>

fun cleanElems :: "bool \<Rightarrow> string list \<Rightarrow> string list \<Rightarrow> string list" where
  "cleanElems rooted out [] = rev out"
| "cleanElems rooted out (e # es) =
     (if e = [] \<or> e = ''.'' then cleanElems rooted out es
      else if e = ''..'' then
        (if out \<noteq> [] \<and> hd out \<noteq> ''..'' then cleanElems rooted (tl out) es
         else if \<not> rooted then cleanElems rooted (e # out) es
         else cleanElems rooted out es)
      else cleanElems rooted (e # out) es)"

definition filepath_Clean :: "string \<Rightarrow> string" where
  "filepath_Clean path =
     (if path = [] then ''.''
      else let rooted = (hd path = CHR ''/'');
               out = joinSep (cleanElems rooted [] (splitSep path))
           in if rooted then CHR ''/'' # out
              else if out = [] then ''.'' else out)"

definition filepath_Dir :: "string \<Rightarrow> string" where
  "filepath_Dir path = filepath_Clean (rev (dropWhile (\<lambda>c. c \<noteq> CHR ''/'') (rev path)))"

definition filepath_Base :: "string \<Rightarrow> string" where
  "filepath_Base path =
     (if path = [] then ''.''
      else let stripped = rev (dropWhile (\<lambda>c. c = CHR ''/'') (rev path));
               elem = rev (takeWhile (\<lambda>c. c \<noteq> CHR ''/'') (rev stripped))
           in if elem = [] then ''/'' else elem)"

text \<open>
  \<open>Ext\<close> walks back from the end of the path until a separator; at the first dot it
  returns the path from that dot on. The first argument is the part still to visit,
  reversed, the second the part already visited.
\<close>

fun extLoop :: "string \<Rightarrow> string \<Rightarrow> string" where
  "extLoop [] visited = []"
| "extLoop (c # remaining) visited =
     (if c = CHR ''/'' then []
      else if c = CHR ''.'' then c # visited
      else extLoop remaining (c # visited))"

definition filepath_Ext :: "string \<Rightarrow> string" where
  "filepath_Ext path = extLoop (rev path) []"

definition filepath_Join :: "string list \<Rightarrow> string" where
  "filepath_Join elem =
     (case dropWhile (\<lambda>e. e = []) elem of
        [] \<Rightarrow> []
      | es \<Rightarrow> filepath_Clean (joinSep es))"

section \<open>The analyzer (\<open>main.go\<close>)\<close>

text \<open>
  \<open>LineNum\<close> is a Go \<open>int\<close>, counted up from 0 by one per line; it is modelled as a natural
  number (a file of \<open>2^63\<close> lines cannot be held in \<open>rawLines\<close>).
\<close>

record KeyValue =
  Key :: string
  Value :: string
  LineNum :: nat

text \<open>
  The errors of the tools are built by \<open>fmt.Errorf\<close> around the error of the operating
  system, here its message:
  \<open>FileAccessError\<close> is \<^verbatim>\<open>failed to open file: %w\<close>, \<open>ReadError\<close> is
  \<^verbatim>\<open>error scanning file: %w\<close>, \<open>MkdirError\<close> is \<^verbatim>\<open>failed to create directory: %w\<close> and
  \<open>CreateError\<close> is \<^verbatim>\<open>failed to create clean file: %w\<close>.
\<close>

datatype error = FileAccessError string | ReadError string | MkdirError string | CreateError string

fun Error :: "error \<Rightarrow> string" where
  "Error (FileAccessError e) = ''failed to open file: '' @ e"
| "Error (ReadError e) = ''error scanning file: '' @ e"
| "Error (MkdirError e) = ''failed to create directory: '' @ e"
| "Error (CreateError e) = ''failed to create clean file: '' @ e"

text \<open>
  The file system as the tools see it: \<open>os.Open\<close> fails with a message (\<open>Inl\<close>) or gives a
  file, from which the scanner delivers lines until \<open>scanner.Scan()\<close> returns false;
  \<open>scanner.Err()\<close> is then \<open>nil\<close> (\<open>None\<close>) or an error.
\<close>

datatype reader = Reader "string list" "string option"

type_synonym openFn = "string \<Rightarrow> string + reader"

text \<open>
  The scanner of the tools splits the bytes of a file with \<open>bufio.ScanLines\<close>: a token
  ends at a line feed, or at the end of the file when bytes are left over, and
  \<open>dropCR\<close> takes one trailing carriage return from it. \<open>scanLines\<close> gives the tokens
  for the bytes of a file, which the scanner delivers when no read fails and no line
  exceeds its buffer; the first argument of \<open>scanFrom\<close> holds the bytes of the current
  line, the last one first.
\<close>

definition dropCR :: "string \<Rightarrow> string" where
  "dropCR data = (if data \<noteq> [] \<and> last data = CHR 0x0D then butlast data else data)"

fun scanFrom :: "string \<Rightarrow> string \<Rightarrow> string list" where
  "scanFrom cur [] = (if cur = [] then [] else [dropCR (rev cur)])"
| "scanFrom cur (c # data) =
     (if c = CHR 0x0A then dropCR (rev cur) # scanFrom [] data
      else scanFrom (c # cur) data)"

definition scanLines :: "string \<Rightarrow> string list" where
  "scanLines content = scanFrom [] content"

text \<open>A line that ends in a carriage return.\<close>

definition endsInCR :: "string \<Rightarrow> bool" where
  "endsInCR line \<longleftrightarrow> line \<noteq> [] \<and> last line = CHR 0x0D"

text \<open>Reading a Go map of slices at a key: a missing key gives the \<open>nil\<close> slice.\<close>

definition entriesOf :: "(string \<rightharpoonup> KeyValue list) \<Rightarrow> string \<Rightarrow> KeyValue list" where
  "entriesOf m key = (case m key of None \<Rightarrow> [] | Some es \<Rightarrow> es)"

type_synonym scanState =
  "(string \<rightharpoonup> KeyValue list) \<times> (string \<rightharpoonup> KeyValue list) \<times> (string \<rightharpoonup> KeyValue)
   \<times> string list \<times> nat"

text \<open>The body of the loop \<open>for scanner.Scan()\<close> of \<open>analyzeLocalizationFile\<close>.\<close>

fun scanLine :: "scanState \<Rightarrow> string \<Rightarrow> scanState" where
  "scanLine (keyEntries, duplicateKeys, uniqueEntries, rawLines0, lineNum0) line =
     (let lineNum = lineNum0 + 1;
          rawLines = rawLines0 @ [line];
          trimmedLine = TrimSpace line
      in if trimmedLine = [] \<or> HasPrefix trimmedLine ''//''
         then (keyEntries, duplicateKeys, uniqueEntries, rawLines, lineNum)
         else case kvPattern_FindStringSubmatch line of
           Some (key, val) \<Rightarrow>
             let entry = \<lparr>Key = key, Value = val, LineNum = lineNum\<rparr>;
                 uniqueEntries1 =
                   (if uniqueEntries key = None then uniqueEntries(key \<mapsto> entry)
                    else uniqueEntries);
                 keyEntries1 = keyEntries(key \<mapsto> entriesOf keyEntries key @ [entry]);
                 duplicateKeys1 =
                   (if length (entriesOf keyEntries1 key) > 1
                    then duplicateKeys(key \<mapsto> entriesOf keyEntries1 key)
                    else duplicateKeys)
             in (keyEntries1, duplicateKeys1, uniqueEntries1, rawLines, lineNum)
         | None \<Rightarrow> (keyEntries, duplicateKeys, uniqueEntries, rawLines, lineNum))"

fun scanLoop :: "scanState \<Rightarrow> string list \<Rightarrow> scanState" where
  "scanLoop st [] = st"
| "scanLoop st (line # rest) = scanLoop (scanLine st line) rest"

definition scanInit :: scanState where
  "scanInit = (Map.empty, Map.empty, Map.empty, [], 0)"

text \<open>
  The result is Go's four values: the duplicate groups, the first occurrences, the raw
  lines and the error. On an error the three results are \<open>nil\<close>: the empty maps and
  the empty slice.
\<close>

definition analyzeLocalizationFile ::
  "openFn \<Rightarrow> string \<Rightarrow>
     (string \<rightharpoonup> KeyValue list) \<times> (string \<rightharpoonup> KeyValue) \<times> string list \<times> error option" where
  "analyzeLocalizationFile os_Open filename =
     (case os_Open filename of
        Inl err \<Rightarrow> (Map.empty, Map.empty, [], Some (FileAccessError err))
      | Inr (Reader lines scanErr) \<Rightarrow>
          (case scanLoop scanInit lines of
             (keyEntries, duplicateKeys, uniqueEntries, rawLines, lineNum) \<Rightarrow>
               (case scanErr of
                  Some err \<Rightarrow> (Map.empty, Map.empty, [], Some (ReadError err))
                | None \<Rightarrow> (duplicateKeys, uniqueEntries, rawLines, None))))"

text \<open>
  The report of \<open>main\<close> decides for each duplicate group whether all values are the same:
  \<open>entries[0]\<close> panics on an empty slice (\<open>None\<close>), the loop over \<open>entries[1:]\<close> stops at the
  first value that differs from the first one.
\<close>

fun allSameLoop :: "string \<Rightarrow> KeyValue list \<Rightarrow> bool" where
  "allSameLoop firstValue [] = True"
| "allSameLoop firstValue (entry # rest) =
     (if Value entry \<noteq> firstValue then False else allSameLoop firstValue rest)"

definition allSame :: "KeyValue list \<Rightarrow> bool option" where
  "allSame entries =
     (case entries of [] \<Rightarrow> None | first # rest \<Rightarrow> Some (allSameLoop (Value first) rest))"

datatype duplicateKind = SameValue | Conflicting

definition reportKind :: "KeyValue list \<Rightarrow> duplicateKind option" where
  "reportKind entries =
     (case allSame entries of
        None \<Rightarrow> None
      | Some b \<Rightarrow> Some (if b then SameValue else Conflicting))"

section \<open>The cleaned file (\<open>main.go\<close>)\<close>

text \<open>Reading a Go \<open>map[string]bool\<close> at a key: a missing key gives \<open>false\<close>.\<close>

definition isSet :: "(string \<rightharpoonup> bool) \<Rightarrow> string \<Rightarrow> bool" where
  "isSet m key = (case m key of None \<Rightarrow> False | Some b \<Rightarrow> b)"

text \<open>
  The loop \<open>for _, line := range rawLines\<close> of \<open>createCleanFile\<close>; the result is the list of
  lines given to \<open>fmt.Fprintln(cleanFile, line)\<close>, in order.
\<close>

fun cleanLoop :: "(string \<rightharpoonup> bool) \<Rightarrow> string list \<Rightarrow> string list" where
  "cleanLoop writtenKeys [] = []"
| "cleanLoop writtenKeys (line # rest) =
     (let trimmedLine = TrimSpace line
      in if trimmedLine = [] \<or> HasPrefix trimmedLine ''//''
         then line # cleanLoop writtenKeys rest
         else case kvPattern_FindStringSubmatch line of
           Some (key, val) \<Rightarrow>
             if \<not> isSet writtenKeys key
             then line # cleanLoop (writtenKeys(key \<mapsto> True)) rest
             else cleanLoop writtenKeys rest
         | None \<Rightarrow> line # cleanLoop writtenKeys rest)"

text \<open>
  The calls to the operating system made by \<open>createCleanFile\<close>, in order. \<open>os.MkdirAll\<close>
  and \<open>os.Create\<close> fail with a message or succeed (\<open>None\<close>); the result of \<open>Fprintln\<close> is
  ignored by the code, and the deferred \<open>cleanFile.Close()\<close> runs when the function returns
  after the loop.
\<close>

datatype fsCall = MkdirAll string | Create string | Fprintln string | Close

type_synonym failFn = "string \<Rightarrow> string option"

definition createCleanFile ::
  "failFn \<Rightarrow> failFn \<Rightarrow> string \<Rightarrow> (string \<rightharpoonup> KeyValue) \<Rightarrow> string list
     \<Rightarrow> error option \<times> fsCall list" where
  "createCleanFile os_MkdirAll os_Create filename uniqueEntries rawLines =
     (let dir = filepath_Dir filename;
          mkdir = (if dir \<noteq> ''.'' \<and> dir \<noteq> [] then [MkdirAll dir] else []);
          mkdirErr = (if dir \<noteq> ''.'' \<and> dir \<noteq> [] then os_MkdirAll dir else None)
      in case mkdirErr of
           Some err \<Rightarrow> (Some (MkdirError err), mkdir)
         | None \<Rightarrow>
             (case os_Create filename of
                Some err \<Rightarrow> (Some (CreateError err), mkdir @ [Create filename])
              | None \<Rightarrow>
                  (None, mkdir @ [Create filename]
                         @ map Fprintln (cleanLoop Map.empty rawLines) @ [Close])))"

text \<open>The bytes of the file after the calls: \<open>Fprintln\<close> writes the line and a line feed.\<close>

fun written :: "fsCall list \<Rightarrow> string" where
  "written [] = []"
| "written (Fprintln line # cs) = line @ CHR 0x0A # written cs"
| "written (c # cs) = written cs"

definition createUniqueFilename :: "string \<Rightarrow> string" where
  "createUniqueFilename filename =
     (let dir = filepath_Dir filename;
          base = filepath_Base filename;
          ext = filepath_Ext filename;
          nameWithoutExt = TrimSuffix base ext
      in filepath_Join [dir, nameWithoutExt @ ''-cleaned'' @ ext])"

text \<open>
  The step of \<open>main\<close> that creates the cleaned file (\<open>if cleanFile != ""\<close>). \<open>Rejected\<close> is
  the branch that prints the suggested name and exits with status 1, \<open>CleanFailed\<close> the
  exit after an error of \<open>createCleanFile\<close>.
\<close>

datatype cleanOutcome = NotRequested | Rejected string | CleanFailed error | Cleaned

definition mainCleanStep ::
  "failFn \<Rightarrow> failFn \<Rightarrow> string \<Rightarrow> string \<Rightarrow> (string \<rightharpoonup> KeyValue) \<Rightarrow> string list
     \<Rightarrow> cleanOutcome \<times> fsCall list" where
  "mainCleanStep os_MkdirAll os_Create cleanFile inputFile uniqueEntries rawLines =
     (if cleanFile \<noteq> [] then
        if filepath_Clean cleanFile = filepath_Clean inputFile
        then (Rejected (createUniqueFilename inputFile), [])
        else case createCleanFile os_MkdirAll os_Create cleanFile uniqueEntries rawLines of
               (Some err, calls) \<Rightarrow> (CleanFailed err, calls)
             | (None, calls) \<Rightarrow> (Cleaned, calls)
      else (NotRequested, []))"

section \<open>The key counter (\<open>count_keys.go\<close>) and the key checker (\<open>check_keys.go\<close>)\<close>

fun countLine :: "(string \<rightharpoonup> bool) \<times> nat \<Rightarrow> string \<Rightarrow> (string \<rightharpoonup> bool) \<times> nat" where
  "countLine (uniqueKeys, totalEntries) line =
     (let trimmedLine = TrimSpace line
      in if trimmedLine = [] \<or> HasPrefix trimmedLine ''//'' then (uniqueKeys, totalEntries)
         else case kvPattern_FindStringSubmatch line of
           Some (key, val) \<Rightarrow> (uniqueKeys(key \<mapsto> True), totalEntries + 1)
         | None \<Rightarrow> (uniqueKeys, totalEntries))"

fun countLoop :: "(string \<rightharpoonup> bool) \<times> nat \<Rightarrow> string list \<Rightarrow> (string \<rightharpoonup> bool) \<times> nat" where
  "countLoop st [] = st"
| "countLoop st (line # rest) = countLoop (countLine st line) rest"

definition countKeys :: "openFn \<Rightarrow> string \<Rightarrow> nat \<times> nat \<times> error option" where
  "countKeys os_Open filename =
     (case os_Open filename of
        Inl err \<Rightarrow> (0, 0, Some (FileAccessError err))
      | Inr (Reader lines scanErr) \<Rightarrow>
          (case countLoop (Map.empty, 0) lines of
             (uniqueKeys, totalEntries) \<Rightarrow>
               (case scanErr of
                  Some err \<Rightarrow> (0, 0, Some (ReadError err))
                | None \<Rightarrow> (card (dom uniqueKeys), totalEntries, None))))"

datatype KeyOccurrence = KeyOccurrence string nat

fun findLine :: "string \<Rightarrow> KeyOccurrence list \<times> nat \<Rightarrow> string \<Rightarrow> KeyOccurrence list \<times> nat" where
  "findLine keyToFind (occurrences, lineNum0) line =
     (let lineNum = lineNum0 + 1;
          trimmedLine = TrimSpace line
      in if trimmedLine = [] \<or> HasPrefix trimmedLine ''//'' then (occurrences, lineNum)
         else case kvPattern_FindStringSubmatch line of
           Some (key, val) \<Rightarrow>
             if key = keyToFind then (occurrences @ [KeyOccurrence val lineNum], lineNum)
             else (occurrences, lineNum)
         | None \<Rightarrow> (occurrences, lineNum))"

fun findLoop :: "string \<Rightarrow> KeyOccurrence list \<times> nat \<Rightarrow> string list \<Rightarrow> KeyOccurrence list \<times> nat" where
  "findLoop keyToFind st [] = st"
| "findLoop keyToFind st (line # rest) = findLoop keyToFind (findLine keyToFind st line) rest"

definition findKeyOccurrences :: "openFn \<Rightarrow> string \<Rightarrow> string \<Rightarrow> KeyOccurrence list \<times> error option" where
  "findKeyOccurrences os_Open filename keyToFind =
     (case os_Open filename of
        Inl err \<Rightarrow> ([], Some (FileAccessError err))
      | Inr (Reader lines scanErr) \<Rightarrow>
          (case findLoop keyToFind ([], 0) lines of
             (occurrences, lineNum) \<Rightarrow>
               (case scanErr of
                  Some err \<Rightarrow> ([], Some (ReadError err))
                | None \<Rightarrow> (occurrences, None))))"

section \<open>The occurrence index of a file, by position\<close>

text \<open>
  The entries of a file as the data model describes them: line \<open>i\<close> (counted from 1)
  gives one entry when it is classified as an entry, and the occurrence sequence of a key
  is the entries with that key, in the order of the file.
\<close>

definition entryAt :: "nat \<Rightarrow> string \<Rightarrow> KeyValue list" where
  "entryAt n line =
     (case classify line of
        Entry key val \<Rightarrow> [\<lparr>Key = key, Value = val, LineNum = n\<rparr>]
      | _ \<Rightarrow> [])"

definition fileEntries :: "string list \<Rightarrow> KeyValue list" where
  "fileEntries lines = concat (map (\<lambda>i. entryAt (i + 1) (lines ! i)) [0..<length lines])"

definition occurrenceSeq :: "string list \<Rightarrow> string \<Rightarrow> KeyValue list" where
  "occurrenceSeq lines key = filter (\<lambda>e. Key e = key) (fileEntries lines)"

text \<open>The keys of the entry lines of a line sequence, in order, with repetitions.\<close>

definition lineKeys :: "string list \<Rightarrow> string list" where
  "lineKeys lines =
     concat (map (\<lambda>line. case classify line of Entry key val \<Rightarrow> [key] | _ \<Rightarrow> []) lines)"

text \<open>A line that is not an entry: blank, comment or unrecognized.\<close>

definition isPassthrough :: "string \<Rightarrow> bool" where
  "isPassthrough line \<longleftrightarrow> classify line = Passthrough \<or> classify line = Unrecognized"

text \<open>
  The policy of the cleaned output, by position: the line at index \<open>i\<close> survives when it
  is not an entry, or when no earlier line is an entry with the same key.
\<close>

definition survives :: "string list \<Rightarrow> nat \<Rightarrow> bool" where
  "survives lines i \<longleftrightarrow>
     (case classify (lines ! i) of
        Entry key val \<Rightarrow> key \<notin> set (lineKeys (take i lines))
      | _ \<Rightarrow> True)"

text \<open>An entry line with the key \<open>k\<close>.\<close>

definition hasKey :: "string \<Rightarrow> string \<Rightarrow> bool" where
  "hasKey k line \<longleftrightarrow> (case classify line of Entry key val \<Rightarrow> key = k | _ \<Rightarrow> False)"

text \<open>The lines given to \<open>Fprintln\<close> among the calls.\<close>

fun printedLines :: "fsCall list \<Rightarrow> string list" where
  "printedLines [] = []"
| "printedLines (Fprintln line # cs) = line # printedLines cs"
| "printedLines (c # cs) = printedLines cs"

section \<open>Properties\<close>

subsection \<open>The matcher and the pattern\<close>

lemma lit_Some_iff: "lit c s = Some r \<longleftrightarrow> s = c # r"
  by (cases s) auto

lemma lit_None_iff: "lit c s = None \<longleftrightarrow> (s = [] \<or> hd s \<noteq> c)"
  by (cases s) auto

lemma notQuote_all: "quote \<notin> set k \<Longrightarrow> x \<in> set k \<Longrightarrow> notQuote x"
  by (auto simp: notQuote_def)

lemma takeWhile_notQuote: "quote \<notin> set k \<Longrightarrow> takeWhile notQuote (k @ quote # r) = k"
  by (induction k) (auto simp: notQuote_def)

lemma dropWhile_notQuote: "quote \<notin> set k \<Longrightarrow> dropWhile notQuote (k @ quote # r) = quote # r"
  by (induction k) (auto simp: notQuote_def)

lemma takeWhile_notQuote_end: "quote \<notin> set k \<Longrightarrow> takeWhile notQuote k = k"
  by (induction k) (auto simp: notQuote_def)

lemma group_quote: "quote \<notin> set k \<Longrightarrow> k \<noteq> [] \<Longrightarrow> group (k @ quote # r) = Some (k, quote # r)"
  by (simp add: group_def takeWhile_notQuote dropWhile_notQuote)

lemma group_empty: "group (quote # r) = None"
  by (simp add: group_def notQuote_def)

lemma group_Some_D:
  assumes "group s = Some (k, r)"
  shows "s = k @ r" and "k \<noteq> []" and "quote \<notin> set k"
proof -
  from assms have k: "k = takeWhile notQuote s" and r: "r = dropWhile notQuote s" and ne: "k \<noteq> []"
    by (auto simp: group_def split: if_splits)
  show "s = k @ r" by (simp add: k r)
  show "k \<noteq> []" by (rule ne)
  show "quote \<notin> set k"
  proof
    assume "quote \<in> set k"
    then have "notQuote quote" unfolding k by (rule set_takeWhileD[THEN conjunct2])
    then show False by (simp add: notQuote_def)
  qed
qed

lemma dropWhile_reSpace: "list_all reSpace ws \<Longrightarrow> \<not> reSpace c \<Longrightarrow> dropWhile reSpace (ws @ c # r) = c # r"
  by (induction ws) auto

lemma dropWhile_reSpace_D:
  assumes "dropWhile reSpace s = c # r"
  shows "\<exists>ws. s = ws @ c # r \<and> list_all reSpace ws"
proof -
  have "s = takeWhile reSpace s @ dropWhile reSpace s" by simp
  moreover have "list_all reSpace (takeWhile reSpace s)"
    by (auto simp: list_all_iff dest: set_takeWhileD)
  ultimately show ?thesis using assms by metis
qed

lemma reSpace_simps: "\<not> reSpace quote" "\<not> reSpace (CHR ''='')" "\<not> reSpace (CHR '';'')"
  by (simp_all add: reSpace_def quote_def)

lemma matchAt_complete:
  assumes "kvPattern_matches s key val"
  shows "kvPattern_matchAt s = Some (key, val)"
proof -
  from assms obtain ws1 ws2 ws3 rest where
    s: "s = quote # key @ quote # ws1 @ CHR ''='' # ws2 @ quote # val @ quote # ws3 @ CHR '';'' # rest"
    and k: "key \<noteq> []" "quote \<notin> set key" and v: "val \<noteq> []" "quote \<notin> set val"
    and ws: "list_all reSpace ws1" "list_all reSpace ws2" "list_all reSpace ws3"
    unfolding kvPattern_matches_def by blast
  show ?thesis
    unfolding kvPattern_matchAt_def s
    by (simp add: group_quote k v dropWhile_reSpace ws reSpace_simps)
qed

lemma matchAt_sound:
  assumes "kvPattern_matchAt s = Some (key, val)"
  shows "kvPattern_matches s key val"
proof -
  from assms obtain s1 s2 s3 s4 s5 s6 s7 s8 where
    1: "lit quote s = Some s1" and 2: "group s1 = Some (key, s2)" and 3: "lit quote s2 = Some s3"
    and 4: "lit (CHR ''='') (dropWhile reSpace s3) = Some s4"
    and 5: "lit quote (dropWhile reSpace s4) = Some s5"
    and 6: "group s5 = Some (val, s6)" and 7: "lit quote s6 = Some s7"
    and 8: "lit (CHR '';'') (dropWhile reSpace s7) = Some s8"
    unfolding kvPattern_matchAt_def by (auto split: option.splits prod.splits)
  from 4 obtain ws1 where w1: "s3 = ws1 @ CHR ''='' # s4" "list_all reSpace ws1"
    using dropWhile_reSpace_D lit_Some_iff by blast
  from 5 obtain ws2 where w2: "s4 = ws2 @ quote # s5" "list_all reSpace ws2"
    using dropWhile_reSpace_D lit_Some_iff by blast
  from 8 obtain ws3 where w3: "s7 = ws3 @ CHR '';'' # s8" "list_all reSpace ws3"
    using dropWhile_reSpace_D lit_Some_iff by blast
  have "s = quote # key @ quote # ws1 @ CHR ''='' # ws2 @ quote # val @ quote # ws3 @ CHR '';'' # s8"
    using 1 3 7 group_Some_D(1)[OF 2] group_Some_D(1)[OF 6] w1(1) w2(1) w3(1)
    by (simp add: lit_Some_iff)
  then show ?thesis
    unfolding kvPattern_matches_def
    using group_Some_D(2,3)[OF 2] group_Some_D(2,3)[OF 6] w1(2) w2(2) w3(2) by blast
qed

lemma matchAt_iff: "kvPattern_matchAt s = Some (key, val) \<longleftrightarrow> kvPattern_matches s key val"
  using matchAt_sound matchAt_complete by blast

lemma matchAt_Nil: "kvPattern_matchAt [] = None"
  by (simp add: kvPattern_matchAt_def)


lemma Find_None_D:
  "kvPattern_FindStringSubmatch line = None \<Longrightarrow> line = pre @ post \<Longrightarrow> kvPattern_matchAt post = None"
proof (induction line arbitrary: pre)
  case Nil
  then show ?case by (simp add: matchAt_Nil)
next
  case (Cons c s)
  from Cons.prems(1) have here: "kvPattern_matchAt (c # s) = None"
    and rest: "kvPattern_FindStringSubmatch s = None"
    by (auto split: option.splits)
  show ?case
  proof (cases pre)
    case Nil
    with Cons.prems(2) here show ?thesis by simp
  next
    case (Cons x pre1)
    with Cons.prems(2) have "s = pre1 @ post" by simp
    with rest show ?thesis by (rule Cons.IH)
  qed
qed

lemma Find_None_I:
  "(\<And>pre post. line = pre @ post \<Longrightarrow> kvPattern_matchAt post = None) \<Longrightarrow>
   kvPattern_FindStringSubmatch line = None"
proof (induction line)
  case Nil
  then show ?case by simp
next
  case (Cons c s)
  have here: "kvPattern_matchAt (c # s) = None"
    by (rule Cons.prems[of "[]"]) simp
  have "kvPattern_FindStringSubmatch s = None"
  proof (rule Cons.IH)
    fix pre post assume "s = pre @ post"
    then have "c # s = (c # pre) @ post" by simp
    then show "kvPattern_matchAt post = None" by (rule Cons.prems)
  qed
  with here show ?case by simp
qed

lemma Find_None_iff:
  "kvPattern_FindStringSubmatch line = None \<longleftrightarrow>
     (\<forall>pre post. line = pre @ post \<longrightarrow> kvPattern_matchAt post = None)"
  using Find_None_D Find_None_I by blast


lemma Find_None_matches:
  "kvPattern_FindStringSubmatch line = None \<longleftrightarrow>
     (\<forall>pre post k v. line = pre @ post \<longrightarrow> \<not> kvPattern_matches post k v)"
proof -
  have "(\<forall>pre post. line = pre @ post \<longrightarrow> kvPattern_matchAt post = None) \<longleftrightarrow>
     (\<forall>pre post k v. line = pre @ post \<longrightarrow> \<not> kvPattern_matches post k v)"
  proof (intro iffI allI impI)
    fix pre post k v
    assume a: "\<forall>pre post. line = pre @ post \<longrightarrow> kvPattern_matchAt post = None" "line = pre @ post"
    then have "kvPattern_matchAt post = None" by blast
    then show "\<not> kvPattern_matches post k v" using matchAt_complete by fastforce
  next
    fix pre post
    assume a: "\<forall>pre post k v. line = pre @ post \<longrightarrow> \<not> kvPattern_matches post k v" "line = pre @ post"
    show "kvPattern_matchAt post = None"
    proof (cases "kvPattern_matchAt post")
      case None then show ?thesis .
    next
      case (Some m)
      obtain k v where "m = (k, v)" by (cases m)
      with Some have "kvPattern_matches post k v" by (simp add: matchAt_sound)
      with a show ?thesis by blast
    qed
  qed
  then show ?thesis by (simp only: Find_None_iff)
qed

subsection \<open>The loops follow the classification\<close>





lemma scanLine_classify:
  "scanLine (ke, dk, ue, rl, n) line =
     (case classify line of
        Entry key val \<Rightarrow>
          (ke(key \<mapsto> entriesOf ke key @ [\<lparr>Key = key, Value = val, LineNum = n + 1\<rparr>]),
           (if length (entriesOf ke key @ [\<lparr>Key = key, Value = val, LineNum = n + 1\<rparr>]) > 1
            then dk(key \<mapsto> entriesOf ke key @ [\<lparr>Key = key, Value = val, LineNum = n + 1\<rparr>])
            else dk),
           (if ue key = None then ue(key \<mapsto> \<lparr>Key = key, Value = val, LineNum = n + 1\<rparr>) else ue),
           rl @ [line], n + 1)
      | _ \<Rightarrow> (ke, dk, ue, rl @ [line], n + 1))"
  by (auto simp: classify_def isCommentOrBlank_def entriesOf_def Let_def split: option.splits)

lemma cleanLoop_classify:
  "cleanLoop w (line # rest) =
     (case classify line of
        Entry key val \<Rightarrow>
          if isSet w key then cleanLoop w rest else line # cleanLoop (w(key \<mapsto> True)) rest
      | _ \<Rightarrow> line # cleanLoop w rest)"
  by (auto simp: classify_def isCommentOrBlank_def Let_def split: option.splits)

lemma countLine_classify:
  "countLine (u, t) line =
     (case classify line of Entry key val \<Rightarrow> (u(key \<mapsto> True), t + 1) | _ \<Rightarrow> (u, t))"
  by (auto simp: classify_def isCommentOrBlank_def Let_def split: option.splits)

lemma findLine_classify:
  "findLine k (occ, n) line =
     (case classify line of
        Entry key val \<Rightarrow> (if key = k then occ @ [KeyOccurrence val (n + 1)] else occ, n + 1)
      | _ \<Rightarrow> (occ, n + 1))"
  by (auto simp: classify_def isCommentOrBlank_def Let_def split: option.splits)

declare scanLine.simps [simp del] cleanLoop.simps(2) [simp del]
  countLine.simps [simp del] findLine.simps [simp del]

lemma isPassthrough_iff: "isPassthrough line \<longleftrightarrow> (\<forall>key val. classify line \<noteq> Entry key val)"
  by (cases "classify line") (auto simp: isPassthrough_def)

subsection \<open>The classifier\<close>



subsection \<open>Errors of the analysis\<close>

text \<open>
  C9. When the source file cannot be opened, \<open>analyzeLocalizationFile\<close> returns a
  \<open>FileAccessError\<close>; when the scanner reports an error after any number of lines, it
  returns a \<open>ReadError\<close>. In both cases the three results are \<open>nil\<close> (empty maps, empty
  slice): what the scan had collected is not returned.
\<close>

theorem analyze_errors:
  "(os_Open filename = Inl err \<longrightarrow>
      analyzeLocalizationFile os_Open filename
        = (Map.empty, Map.empty, [], Some (FileAccessError err)))
   \<and> (os_Open filename = Inr (Reader lines (Some err)) \<longrightarrow>
      analyzeLocalizationFile os_Open filename
        = (Map.empty, Map.empty, [], Some (ReadError err)))"
  by (simp add: analyzeLocalizationFile_def split: prod.splits)

theorem analyze_errors_witness:
  \<open>analyzeLocalizationFile (\<lambda>f. Inl ''no such file or directory'') ''missing.strings''
     = (Map.empty, Map.empty, [], Some (FileAccessError ''no such file or directory''))
   \<and> analyzeLocalizationFile
        (\<lambda>f. Inr (Reader [''"A" = "1";'', ''"A" = "2";''] (Some ''input/output error'')))
        ''Localizable.strings''
     = (Map.empty, Map.empty, [], Some (ReadError ''input/output error''))\<close>
  using analyze_errors[where os_Open = "\<lambda>f. Inl ''no such file or directory''"
          and filename = "''missing.strings''" and err = "''no such file or directory''"]
        analyze_errors[where os_Open =
            \<open>\<lambda>f. Inr (Reader [''"A" = "1";'', ''"A" = "2";''] (Some ''input/output error''))\<close>
          and filename = "''Localizable.strings''" and lines = \<open>[''"A" = "1";'', ''"A" = "2";'']\<close>
          and err = "''input/output error''"]
  by simp

subsection \<open>The scan of the analyzer\<close>

lemma scanLoop_snoc: "scanLoop st (ls @ [l]) = scanLine (scanLoop st ls) l"
  by (induction ls arbitrary: st) simp_all

lemma fileEntries_Nil: "fileEntries [] = []"
  by (simp add: fileEntries_def)

lemma fileEntries_snoc:
  "fileEntries (ls @ [l]) = fileEntries ls @ entryAt (length ls + 1) l"
proof -
  have "map (\<lambda>i. entryAt (i + 1) ((ls @ [l]) ! i)) [0..<length ls]
        = map (\<lambda>i. entryAt (i + 1) (ls ! i)) [0..<length ls]"
    by (rule map_cong) (simp_all add: nth_append)
  then show ?thesis
    by (simp add: fileEntries_def del: map_eq_conv)
qed

lemma occurrenceSeq_Nil: "occurrenceSeq [] k = []"
  by (simp add: occurrenceSeq_def fileEntries_Nil)

lemma occurrenceSeq_snoc:
  "occurrenceSeq (ls @ [l]) k
     = occurrenceSeq ls k @ filter (\<lambda>e. Key e = k) (entryAt (length ls + 1) l)"
  by (simp add: occurrenceSeq_def fileEntries_snoc)

lemma occurrenceSeq_snoc_Entry:
  "classify l = Entry key val \<Longrightarrow>
   occurrenceSeq (ls @ [l]) k
     = (if k = key then occurrenceSeq ls k @ [\<lparr>Key = key, Value = val, LineNum = length ls + 1\<rparr>]
        else occurrenceSeq ls k)"
  by (auto simp: occurrenceSeq_snoc entryAt_def)

lemma occurrenceSeq_snoc_other:
  "isPassthrough l \<Longrightarrow> occurrenceSeq (ls @ [l]) k = occurrenceSeq ls k"
  by (auto simp: occurrenceSeq_snoc entryAt_def isPassthrough_def)

lemma scanLoop_closed:
  "scanLoop scanInit lines =
     ((\<lambda>k. if occurrenceSeq lines k = [] then None else Some (occurrenceSeq lines k)),
      (\<lambda>k. if 2 \<le> length (occurrenceSeq lines k) then Some (occurrenceSeq lines k) else None),
      (\<lambda>k. if occurrenceSeq lines k = [] then None else Some (hd (occurrenceSeq lines k))),
      lines, length lines)"
proof (induction lines rule: rev_induct)
  case Nil
  show ?case by (simp add: scanInit_def occurrenceSeq_Nil)
next
  case (snoc l ls)
  show ?case
  proof (cases "classify l")
    case (Entry key val)
    show ?thesis
      unfolding scanLoop_snoc snoc.IH scanLine_classify Entry lineClass.case
      by (auto simp: occurrenceSeq_snoc_Entry[OF Entry] entriesOf_def fun_eq_iff Suc_le_eq)
  next
    case Passthrough
    then have "isPassthrough l" by (simp add: isPassthrough_def)
    then show ?thesis
      unfolding scanLoop_snoc snoc.IH scanLine_classify Passthrough lineClass.case
      by (simp add: occurrenceSeq_snoc_other cong: if_cong)
  next
    case Unrecognized
    then have "isPassthrough l" by (simp add: isPassthrough_def)
    then show ?thesis
      unfolding scanLoop_snoc snoc.IH scanLine_classify Unrecognized lineClass.case
      by (simp add: occurrenceSeq_snoc_other cong: if_cong)
  qed
qed

lemma entryAt_LineNum: "e \<in> set (entryAt n l) \<Longrightarrow> LineNum e = n"
  by (auto simp: entryAt_def split: lineClass.splits)

lemma fileEntries_LineNum:
  "e \<in> set (fileEntries lines) \<Longrightarrow> 1 \<le> LineNum e \<and> LineNum e \<le> length lines"
proof (induction lines rule: rev_induct)
  case Nil
  then show ?case by (simp add: fileEntries_Nil)
next
  case (snoc l ls)
  then show ?case
    by (auto simp: fileEntries_snoc dest!: entryAt_LineNum)
qed

lemma fileEntries_sorted: "sorted_wrt (<) (map LineNum (fileEntries lines))"
proof (induction lines rule: rev_induct)
  case Nil
  then show ?case by (simp add: fileEntries_Nil)
next
  case (snoc l ls)
  have one: "sorted_wrt (<) (map LineNum (entryAt (length ls + 1) l))"
    by (simp add: entryAt_def split: lineClass.splits)
  have "LineNum a < LineNum b"
    if "a \<in> set (fileEntries ls)" "b \<in> set (entryAt (length ls + 1) l)" for a b
    using fileEntries_LineNum[OF that(1)] entryAt_LineNum[OF that(2)] by simp
  with snoc.IH one show ?case
    by (simp add: fileEntries_snoc sorted_wrt_append)
qed

lemma occurrenceSeq_sorted: "sorted_wrt (<) (map LineNum (occurrenceSeq lines k))"
proof -
  have "sorted_wrt (\<lambda>a b. LineNum a < LineNum b) (fileEntries lines)"
    using fileEntries_sorted[of lines] by (simp add: sorted_wrt_map)
  then have "sorted_wrt (\<lambda>a b. LineNum a < LineNum b) (occurrenceSeq lines k)"
    unfolding occurrenceSeq_def by (rule sorted_wrt_filter)
  then show ?thesis by (simp add: sorted_wrt_map)
qed

lemma occurrenceSeq_Key: "e \<in> set (occurrenceSeq lines k) \<Longrightarrow> Key e = k"
  by (simp add: occurrenceSeq_def)

lemma hd_is_Min:
  assumes "sorted_wrt (<) (map f xs)" and "xs \<noteq> []"
  shows "f (hd xs) = Min (f ` set xs)"
proof -
  obtain x r where xs: "xs = x # r" using assms(2) by (cases xs) auto
  with assms(1) have "\<forall>y \<in> set r. f x < f y" by auto
  then have "\<forall>y \<in> f ` set xs. f x \<le> y" by (auto simp: xs less_imp_le)
  moreover have "f x \<in> f ` set xs" by (simp add: xs)
  ultimately have "Min (f ` set xs) = f x" by (intro Min_eqI) auto
  then show ?thesis by (simp add: xs)
qed

lemma fileEntries_at:
  "e \<in> set (fileEntries lines) \<longleftrightarrow>
     (\<exists>i < length lines. classify (lines ! i) = Entry (Key e) (Value e) \<and> LineNum e = i + 1)"
proof -
  have "e \<in> set (entryAt n l) \<longleftrightarrow> classify l = Entry (Key e) (Value e) \<and> LineNum e = n" for n l
    by (cases e) (auto simp: entryAt_def split: lineClass.splits)
  then show ?thesis by (auto simp: fileEntries_def)
qed

lemma lineKeys_fileEntries: "lineKeys lines = map Key (fileEntries lines)"
proof (induction lines rule: rev_induct)
  case Nil
  then show ?case by (simp add: lineKeys_def fileEntries_Nil)
next
  case (snoc l ls)
  then show ?case
    by (simp add: lineKeys_def fileEntries_snoc entryAt_def split: lineClass.splits)
qed

lemma occurrenceSeq_nonempty_iff: "occurrenceSeq lines k \<noteq> [] \<longleftrightarrow> k \<in> set (lineKeys lines)"
  by (auto simp: occurrenceSeq_def lineKeys_fileEntries filter_empty_conv)

lemma allSameLoop_iff: "allSameLoop v es \<longleftrightarrow> (\<forall>e \<in> set es. Value e = v)"
  by (induction es) auto

lemma reportKind_Cons:
  "reportKind (e # es) = Some (if \<forall>x \<in> set es. Value x = Value e then SameValue else Conflicting)"
  by (simp add: reportKind_def allSame_def allSameLoop_iff)

lemma scanLine_keeps_first:
  assumes "scanLine (ke, dk, ue, rl, n) line = (ke', dk', ue', rl', n')" and "ue key = Some e"
  shows "ue' key = Some e"
  using assms unfolding scanLine_classify
  by (cases "classify line") (auto split: if_splits)

lemma scanLine_registers:
  assumes "scanLine (ke, dk, ue, rl, n) line = (ke', dk', ue', rl', n')"
    and "ue key = None" and "classify line = Entry key val"
  shows "ue' key = Some \<lparr>Key = key, Value = val, LineNum = n + 1\<rparr>"
  using assms unfolding scanLine_classify by auto

lemma scanLoop_components:
  assumes "scanLoop scanInit lines = (ke, dk, ue, rl, n)"
  shows "ke = (\<lambda>k. if occurrenceSeq lines k = [] then None else Some (occurrenceSeq lines k))"
    and "dk = (\<lambda>k. if 2 \<le> length (occurrenceSeq lines k) then Some (occurrenceSeq lines k) else None)"
    and "ue = (\<lambda>k. if occurrenceSeq lines k = [] then None else Some (hd (occurrenceSeq lines k)))"
    and "rl = lines" and "n = length lines"
proof -
  have "((\<lambda>k. if occurrenceSeq lines k = [] then None else Some (occurrenceSeq lines k)),
      (\<lambda>k. if 2 \<le> length (occurrenceSeq lines k) then Some (occurrenceSeq lines k) else None),
      (\<lambda>k. if occurrenceSeq lines k = [] then None else Some (hd (occurrenceSeq lines k))),
      lines, length lines) = (ke, dk, ue, rl, n)"
    using assms by (simp only: scanLoop_closed)
  then have "(\<lambda>k. if occurrenceSeq lines k = [] then None else Some (occurrenceSeq lines k)) = ke
      \<and> (\<lambda>k. if 2 \<le> length (occurrenceSeq lines k) then Some (occurrenceSeq lines k) else None) = dk
      \<and> (\<lambda>k. if occurrenceSeq lines k = [] then None else Some (hd (occurrenceSeq lines k))) = ue
      \<and> lines = rl \<and> length lines = n"
    by blast
  then show "ke = (\<lambda>k. if occurrenceSeq lines k = [] then None else Some (occurrenceSeq lines k))"
    and "dk = (\<lambda>k. if 2 \<le> length (occurrenceSeq lines k) then Some (occurrenceSeq lines k) else None)"
    and "ue = (\<lambda>k. if occurrenceSeq lines k = [] then None else Some (hd (occurrenceSeq lines k)))"
    and "rl = lines" and "n = length lines"
    by blast+
qed

text \<open>
  C1. After the scan of a file, a key is in \<open>duplicateKeys\<close> exactly when its sequence in
  \<open>keyEntries\<close> has at least two entries; the group is then that whole sequence, which
  is the occurrence sequence of the key in the file, in ascending order of line numbers.
  A key with exactly one occurrence is not in \<open>duplicateKeys\<close>. When the scanner reports
  no error, \<open>analyzeLocalizationFile\<close> returns these maps.
\<close>

theorem duplicateGroups_iff:
  assumes "scanLoop scanInit lines = (keyEntries, duplicateKeys, uniqueEntries, rawLines, lineNum)"
  shows "(key \<in> dom duplicateKeys \<longleftrightarrow> 2 \<le> length (entriesOf keyEntries key))
       \<and> (key \<in> dom duplicateKeys \<longrightarrow> duplicateKeys key = Some (entriesOf keyEntries key))
       \<and> (length (entriesOf keyEntries key) = 1 \<longrightarrow> key \<notin> dom duplicateKeys)
       \<and> entriesOf keyEntries key = occurrenceSeq lines key
       \<and> sorted_wrt (<) (map LineNum (entriesOf keyEntries key))
       \<and> (os_Open filename = Inr (Reader lines None) \<longrightarrow>
            analyzeLocalizationFile os_Open filename
              = (duplicateKeys, uniqueEntries, rawLines, None))"
proof -
  from assms have ke: "keyEntries =
      (\<lambda>k. if occurrenceSeq lines k = [] then None else Some (occurrenceSeq lines k))"
    and dk: "duplicateKeys =
      (\<lambda>k. if 2 \<le> length (occurrenceSeq lines k) then Some (occurrenceSeq lines k) else None)"
    by (rule scanLoop_components)+
  have eo: "entriesOf keyEntries key = occurrenceSeq lines key"
    by (simp add: ke entriesOf_def)
  have "key \<in> dom duplicateKeys \<longleftrightarrow> 2 \<le> length (occurrenceSeq lines key)"
    by (simp add: dk dom_def)
  moreover have "key \<in> dom duplicateKeys \<longrightarrow> duplicateKeys key = Some (occurrenceSeq lines key)"
    by (simp add: dk dom_def)
  moreover have "os_Open filename = Inr (Reader lines None) \<longrightarrow>
            analyzeLocalizationFile os_Open filename
              = (duplicateKeys, uniqueEntries, rawLines, None)"
    by (simp add: analyzeLocalizationFile_def assms)
  ultimately show ?thesis
    using occurrenceSeq_sorted[of lines key] by (simp add: eo)
qed

theorem duplicateGroups_iff_witness:
  \<open>case scanLoop scanInit [''"A" = "1";'', ''"B" = "2";'', ''"A" = "1";''] of
     (keyEntries, duplicateKeys, uniqueEntries, rawLines, lineNum) \<Rightarrow>
       duplicateKeys ''A''
         = Some [\<lparr>Key = ''A'', Value = ''1'', LineNum = 1\<rparr>, \<lparr>Key = ''A'', Value = ''1'', LineNum = 3\<rparr>]
       \<and> ''B'' \<notin> dom duplicateKeys
       \<and> entriesOf keyEntries ''B'' = [\<lparr>Key = ''B'', Value = ''2'', LineNum = 2\<rparr>]\<close>
proof -
  obtain ke dk ue rl n where
    h: \<open>scanLoop scanInit [''"A" = "1";'', ''"B" = "2";'', ''"A" = "1";''] = (ke, dk, ue, rl, n)\<close>
    by (metis prod_cases5)
  have a: \<open>occurrenceSeq [''"A" = "1";'', ''"B" = "2";'', ''"A" = "1";''] ''A''
      = [\<lparr>Key = ''A'', Value = ''1'', LineNum = 1\<rparr>, \<lparr>Key = ''A'', Value = ''1'', LineNum = 3\<rparr>]\<close>
    by code_simp
  have b: \<open>occurrenceSeq [''"A" = "1";'', ''"B" = "2";'', ''"A" = "1";''] ''B''
      = [\<lparr>Key = ''B'', Value = ''2'', LineNum = 2\<rparr>]\<close>
    by code_simp
  from duplicateGroups_iff[OF h, of "''A''"] a
  have "dk ''A''
      = Some [\<lparr>Key = ''A'', Value = ''1'', LineNum = 1\<rparr>, \<lparr>Key = ''A'', Value = ''1'', LineNum = 3\<rparr>]"
    by simp
  moreover from duplicateGroups_iff[OF h, of "''B''"] b
  have "''B'' \<notin> dom dk" and "entriesOf ke ''B'' = [\<lparr>Key = ''B'', Value = ''2'', LineNum = 2\<rparr>]"
    by simp_all
  ultimately show ?thesis unfolding h by simp
qed

text \<open>
  C6. After the scan, \<open>uniqueEntries\<close> maps every key seen in the file to the first entry
  of its occurrence sequence, which is the one with the smallest line number, and holds
  no other key. The loop body registers a key that is not yet in \<open>uniqueEntries\<close> and
  never changes the entry of a key that is.
\<close>

theorem firstOccurrences_min:
  assumes "scanLoop scanInit lines = (keyEntries, duplicateKeys, uniqueEntries, rawLines, lineNum)"
  shows "(key \<in> set (lineKeys lines) \<longrightarrow>
            (\<exists>e. uniqueEntries key = Some e \<and> e \<in> set (entriesOf keyEntries key)
                 \<and> e = hd (entriesOf keyEntries key)
                 \<and> LineNum e = Min (LineNum ` set (entriesOf keyEntries key))))
       \<and> (key \<notin> set (lineKeys lines) \<longrightarrow> uniqueEntries key = None)
       \<and> entriesOf keyEntries key = occurrenceSeq lines key
       \<and> (\<forall>ke dk ue rl n line ke' dk' ue' rl' n' e.
            scanLine (ke, dk, ue, rl, n) line = (ke', dk', ue', rl', n') \<and> ue key = Some e
            \<longrightarrow> ue' key = Some e)
       \<and> (\<forall>ke dk ue rl n line ke' dk' ue' rl' n' val.
            scanLine (ke, dk, ue, rl, n) line = (ke', dk', ue', rl', n') \<and> ue key = None
            \<and> classify line = Entry key val
            \<longrightarrow> ue' key = Some \<lparr>Key = key, Value = val, LineNum = n + 1\<rparr>)"
proof -
  from assms have ke: "keyEntries =
      (\<lambda>k. if occurrenceSeq lines k = [] then None else Some (occurrenceSeq lines k))"
    and ue: "uniqueEntries =
      (\<lambda>k. if occurrenceSeq lines k = [] then None else Some (hd (occurrenceSeq lines k)))"
    by (rule scanLoop_components)+
  have eo: "entriesOf keyEntries key = occurrenceSeq lines key"
    by (simp add: ke entriesOf_def)
  have seen: "key \<in> set (lineKeys lines) \<longrightarrow>
            (\<exists>e. uniqueEntries key = Some e \<and> e \<in> set (occurrenceSeq lines key)
                 \<and> e = hd (occurrenceSeq lines key)
                 \<and> LineNum e = Min (LineNum ` set (occurrenceSeq lines key)))"
  proof
    assume "key \<in> set (lineKeys lines)"
    then have ne: "occurrenceSeq lines key \<noteq> []"
      by (simp add: occurrenceSeq_nonempty_iff)
    then have "uniqueEntries key = Some (hd (occurrenceSeq lines key))"
      by (simp add: ue)
    moreover have "LineNum (hd (occurrenceSeq lines key))
        = Min (LineNum ` set (occurrenceSeq lines key))"
      by (rule hd_is_Min[OF occurrenceSeq_sorted ne])
    ultimately show "\<exists>e. uniqueEntries key = Some e \<and> e \<in> set (occurrenceSeq lines key)
                 \<and> e = hd (occurrenceSeq lines key)
                 \<and> LineNum e = Min (LineNum ` set (occurrenceSeq lines key))"
      using ne by simp
  qed
  have unseen: "key \<notin> set (lineKeys lines) \<longrightarrow> uniqueEntries key = None"
    by (simp add: ue occurrenceSeq_nonempty_iff[symmetric])
  have keep: "\<forall>ke dk ue rl n line ke' dk' ue' rl' n' e.
            scanLine (ke, dk, ue, rl, n) line = (ke', dk', ue', rl', n') \<and> ue key = Some e
            \<longrightarrow> ue' key = Some e"
    using scanLine_keeps_first by blast
  have reg: "\<forall>ke dk ue rl n line ke' dk' ue' rl' n' val.
            scanLine (ke, dk, ue, rl, n) line = (ke', dk', ue', rl', n') \<and> ue key = None
            \<and> classify line = Entry key val
            \<longrightarrow> ue' key = Some \<lparr>Key = key, Value = val, LineNum = n + 1\<rparr>"
    using scanLine_registers by blast
  show ?thesis
    unfolding eo using seen unseen keep reg by (intro conjI) (assumption | rule refl)+
qed

theorem firstOccurrences_min_witness:
  \<open>case scanLoop scanInit [''"Hi" = "Hello";'', ''// again'', ''"Hi" = "Hola";''] of
     (keyEntries, duplicateKeys, uniqueEntries, rawLines, lineNum) \<Rightarrow>
       uniqueEntries ''Hi'' = Some \<lparr>Key = ''Hi'', Value = ''Hello'', LineNum = 1\<rparr>
       \<and> uniqueEntries ''Ho'' = None\<close>
proof -
  obtain ke dk ue rl n where
    h: \<open>scanLoop scanInit [''"Hi" = "Hello";'', ''// again'', ''"Hi" = "Hola";''] = (ke, dk, ue, rl, n)\<close>
    by (metis prod_cases5)
  have k: \<open>lineKeys [''"Hi" = "Hello";'', ''// again'', ''"Hi" = "Hola";''] = [''Hi'', ''Hi'']\<close>
    by code_simp
  have o: \<open>occurrenceSeq [''"Hi" = "Hello";'', ''// again'', ''"Hi" = "Hola";''] ''Hi''
      = [\<lparr>Key = ''Hi'', Value = ''Hello'', LineNum = 1\<rparr>, \<lparr>Key = ''Hi'', Value = ''Hola'', LineNum = 3\<rparr>]\<close>
    by code_simp
  from firstOccurrences_min[OF h, of "''Hi''"] k o
  have "ue ''Hi'' = Some \<lparr>Key = ''Hi'', Value = ''Hello'', LineNum = 1\<rparr>"
    by auto
  moreover from firstOccurrences_min[OF h, of "''Ho''"] k
  have "ue ''Ho'' = None"
    by simp
  ultimately show ?thesis unfolding h by simp
qed

text \<open>
  C3. For a key of \<open>duplicateKeys\<close> the report says "same value" exactly when every
  occurrence has the value of the first occurrence, and "conflict" exactly when some
  occurrence has another value; it never fails on a group of the analysis. Values are
  compared as byte strings, with no normalisation.
\<close>

theorem duplicate_classification:
  assumes "scanLoop scanInit lines = (keyEntries, duplicateKeys, uniqueEntries, rawLines, lineNum)"
    and "duplicateKeys key = Some entries"
  shows "(reportKind entries = Some SameValue \<longleftrightarrow> (\<forall>e \<in> set entries. Value e = Value (hd entries)))
       \<and> (reportKind entries = Some Conflicting \<longleftrightarrow> (\<exists>e \<in> set entries. Value e \<noteq> Value (hd entries)))
       \<and> reportKind entries \<noteq> None
       \<and> entries = occurrenceSeq lines key"
proof -
  from assms(1) have dk: "duplicateKeys =
      (\<lambda>k. if 2 \<le> length (occurrenceSeq lines k) then Some (occurrenceSeq lines k) else None)"
    by (rule scanLoop_components)
  from assms(2) have e: "entries = occurrenceSeq lines key" and len: "2 \<le> length entries"
    by (auto simp: dk split: if_splits)
  from len obtain x xs where xs: "entries = x # xs" by (cases entries) auto
  have "(reportKind entries = Some SameValue \<longleftrightarrow> (\<forall>e \<in> set entries. Value e = Value (hd entries)))
       \<and> (reportKind entries = Some Conflicting \<longleftrightarrow> (\<exists>e \<in> set entries. Value e \<noteq> Value (hd entries)))
       \<and> reportKind entries \<noteq> None"
    by (auto simp: xs reportKind_Cons)
  with e show ?thesis by blast
qed

theorem duplicate_classification_witness:
  \<open>case scanLoop scanInit [''"Hi" = "Hello";'', ''"Hi" = "hello";'', ''"A" = "1";'', ''"A" = "1";''] of
     (keyEntries, duplicateKeys, uniqueEntries, rawLines, lineNum) \<Rightarrow>
       map_option reportKind (duplicateKeys ''Hi'') = Some (Some Conflicting)
       \<and> map_option reportKind (duplicateKeys ''A'') = Some (Some SameValue)\<close>
proof -
  obtain ke dk ue rl n where
    h: \<open>scanLoop scanInit [''"Hi" = "Hello";'', ''"Hi" = "hello";'', ''"A" = "1";'', ''"A" = "1";'']
          = (ke, dk, ue, rl, n)\<close>
    by (metis prod_cases5)
  have a: \<open>occurrenceSeq [''"Hi" = "Hello";'', ''"Hi" = "hello";'', ''"A" = "1";'', ''"A" = "1";''] ''Hi''
      = [\<lparr>Key = ''Hi'', Value = ''Hello'', LineNum = 1\<rparr>, \<lparr>Key = ''Hi'', Value = ''hello'', LineNum = 2\<rparr>]\<close>
    by code_simp
  have b: \<open>occurrenceSeq [''"Hi" = "Hello";'', ''"Hi" = "hello";'', ''"A" = "1";'', ''"A" = "1";''] ''A''
      = [\<lparr>Key = ''A'', Value = ''1'', LineNum = 3\<rparr>, \<lparr>Key = ''A'', Value = ''1'', LineNum = 4\<rparr>]\<close>
    by code_simp
  from h have dk: \<open>dk = (\<lambda>k. if 2 \<le> length (occurrenceSeq
        [''"Hi" = "Hello";'', ''"Hi" = "hello";'', ''"A" = "1";'', ''"A" = "1";''] k)
      then Some (occurrenceSeq [''"Hi" = "Hello";'', ''"Hi" = "hello";'', ''"A" = "1";'', ''"A" = "1";''] k)
      else None)\<close>
    by (rule scanLoop_components)
  have dh: "dk ''Hi''
      = Some [\<lparr>Key = ''Hi'', Value = ''Hello'', LineNum = 1\<rparr>, \<lparr>Key = ''Hi'', Value = ''hello'', LineNum = 2\<rparr>]"
    by (simp add: dk a)
  have da: "dk ''A''
      = Some [\<lparr>Key = ''A'', Value = ''1'', LineNum = 3\<rparr>, \<lparr>Key = ''A'', Value = ''1'', LineNum = 4\<rparr>]"
    by (simp add: dk b)
  from duplicate_classification[OF h dh, THEN conjunct2, THEN conjunct1]
  have "reportKind [\<lparr>Key = ''Hi'', Value = ''Hello'', LineNum = 1\<rparr>, \<lparr>Key = ''Hi'', Value = ''hello'', LineNum = 2\<rparr>]
      = Some Conflicting"
    by simp
  moreover from duplicate_classification[OF h da, THEN conjunct1]
  have "reportKind [\<lparr>Key = ''A'', Value = ''1'', LineNum = 3\<rparr>, \<lparr>Key = ''A'', Value = ''1'', LineNum = 4\<rparr>]
      = Some SameValue"
    by simp
  ultimately show ?thesis unfolding h by (simp add: dh da)
qed

subsection \<open>The cleaned output\<close>

lemma isSet_upd: "isSet (w(k \<mapsto> True)) k' \<longleftrightarrow> k' = k \<or> isSet w k'"
  by (simp add: isSet_def)

lemma isSet_upd_set: "{k'. isSet (w(k \<mapsto> True)) k'} = insert k {k'. isSet w k'}"
  by (auto simp: isSet_def)

lemma isSet_if: "isSet (\<lambda>a. if a = k then Some True else w a) k' \<longleftrightarrow> k' = k \<or> isSet w k'"
  by (simp add: isSet_def)

lemma isSet_empty: "\<not> isSet Map.empty k"
  by (simp add: isSet_def)

lemma lineKeys_Nil: "lineKeys [] = []"
  by (simp add: lineKeys_def)

lemma lineKeys_Cons:
  "lineKeys (l # ls) = (case classify l of Entry key val \<Rightarrow> [key] | _ \<Rightarrow> []) @ lineKeys ls"
  by (simp add: lineKeys_def)

lemma lineKeys_append: "lineKeys (xs @ ys) = lineKeys xs @ lineKeys ys"
  by (simp add: lineKeys_def)

lemma cleanLoop_Entry_new:
  "classify l = Entry key val \<Longrightarrow> \<not> isSet w key \<Longrightarrow>
   cleanLoop w (l # ls) = l # cleanLoop (w(key \<mapsto> True)) ls"
  by (simp add: cleanLoop_classify)

lemma cleanLoop_Entry_old:
  "classify l = Entry key val \<Longrightarrow> isSet w key \<Longrightarrow> cleanLoop w (l # ls) = cleanLoop w ls"
  by (simp add: cleanLoop_classify)

lemma cleanLoop_other: "isPassthrough l \<Longrightarrow> cleanLoop w (l # ls) = l # cleanLoop w ls"
  by (auto simp: cleanLoop_classify isPassthrough_def)

lemma lineKeys_Cons_Entry: "classify l = Entry key val \<Longrightarrow> lineKeys (l # ls) = key # lineKeys ls"
  by (simp add: lineKeys_Cons)

lemma lineKeys_Cons_other: "isPassthrough l \<Longrightarrow> lineKeys (l # ls) = lineKeys ls"
  by (auto simp: lineKeys_Cons isPassthrough_def)

lemma line_cases:
  obtains (Entry_new) key val where "classify l = Entry key val" "\<not> isSet w key"
  | (Entry_old) key val where "classify l = Entry key val" "isSet w key"
  | (Other) "isPassthrough l"
  by (cases "classify l") (auto simp: isPassthrough_def)

lemma not_isPassthrough_Entry: "classify l = Entry key val \<Longrightarrow> \<not> isPassthrough l"
  by (simp add: isPassthrough_def)

lemma cleanLoop_subseq: "subseq (cleanLoop w ls) ls"
proof (induction ls arbitrary: w)
  case Nil
  then show ?case by simp
next
  case (Cons l ls)
  show ?case
  proof (cases l w rule: line_cases)
    case (Entry_new key val)
    then show ?thesis by (simp add: cleanLoop_Entry_new[OF Entry_new] Cons.IH del: fun_upd_apply)
  next
    case (Entry_old key val)
    then show ?thesis by (simp add: cleanLoop_Entry_old[OF Entry_old] Cons.IH list_emb_Cons del: fun_upd_apply)
  next
    case Other
    then show ?thesis by (simp add: cleanLoop_other Cons.IH del: fun_upd_apply)
  qed
qed

lemma cleanLoop_keys:
  "k \<in> set (lineKeys (cleanLoop w ls)) \<longleftrightarrow> k \<in> set (lineKeys ls) \<and> \<not> isSet w k"
proof (induction ls arbitrary: w)
  case Nil
  then show ?case by (simp add: lineKeys_Nil)
next
  case (Cons l ls)
  show ?case
  proof (cases l w rule: line_cases)
    case (Entry_new key val)
    then show ?thesis
      by (simp add: cleanLoop_Entry_new[OF Entry_new] lineKeys_Cons_Entry[OF Entry_new(1)] Cons.IH[of "w(key \<mapsto> True)"] isSet_upd del: fun_upd_apply; blast)
  next
    case (Entry_old key val)
    then show ?thesis
      by (simp add: cleanLoop_Entry_old[OF Entry_old] lineKeys_Cons_Entry[OF Entry_old(1)] Cons.IH[of w] del: fun_upd_apply; blast)
  next
    case Other
    then show ?thesis by (simp add: cleanLoop_other lineKeys_Cons_other Cons.IH[of w] del: fun_upd_apply)
  qed
qed

lemma cleanLoop_distinct: "distinct (lineKeys (cleanLoop w ls))"
proof (induction ls arbitrary: w)
  case Nil
  then show ?case by (simp add: lineKeys_Nil)
next
  case (Cons l ls)
  show ?case
  proof (cases l w rule: line_cases)
    case (Entry_new key val)
    then show ?thesis
      by (simp add: cleanLoop_Entry_new[OF Entry_new] lineKeys_Cons_Entry[OF Entry_new(1)] Cons.IH cleanLoop_keys isSet_upd del: fun_upd_apply)
  next
    case (Entry_old key val)
    then show ?thesis by (simp add: cleanLoop_Entry_old[OF Entry_old] Cons.IH del: fun_upd_apply)
  next
    case Other
    then show ?thesis by (simp add: cleanLoop_other lineKeys_Cons_other Cons.IH del: fun_upd_apply)
  qed
qed

lemma cleanLoop_passthrough:
  "filter isPassthrough (cleanLoop w ls) = filter isPassthrough ls"
proof (induction ls arbitrary: w)
  case Nil
  then show ?case by simp
next
  case (Cons l ls)
  show ?case
  proof (cases l w rule: line_cases)
    case (Entry_new key val)
    then show ?thesis
      by (simp add: cleanLoop_Entry_new[OF Entry_new] not_isPassthrough_Entry[OF Entry_new(1)] Cons.IH del: fun_upd_apply)
  next
    case (Entry_old key val)
    then show ?thesis
      by (simp add: cleanLoop_Entry_old[OF Entry_old] not_isPassthrough_Entry[OF Entry_old(1)] Cons.IH del: fun_upd_apply)
  next
    case Other
    then show ?thesis by (simp add: cleanLoop_other Cons.IH del: fun_upd_apply)
  qed
qed

lemma cleanLoop_idem: "cleanLoop w (cleanLoop w ls) = cleanLoop w ls"
proof (induction ls arbitrary: w)
  case Nil
  then show ?case by simp
next
  case (Cons l ls)
  show ?case
  proof (cases l w rule: line_cases)
    case (Entry_new key val)
    then show ?thesis by (simp add: cleanLoop_Entry_new[OF Entry_new] Cons.IH del: fun_upd_apply)
  next
    case (Entry_old key val)
    then show ?thesis by (simp add: cleanLoop_Entry_old[OF Entry_old] Cons.IH del: fun_upd_apply)
  next
    case Other
    then show ?thesis by (simp add: cleanLoop_other Cons.IH del: fun_upd_apply)
  qed
qed

lemma cleanLoop_Nil: "cleanLoop w [] = []"
  by simp

lemma cleanLoop_single:
  "cleanLoop w [l] =
     (case classify l of Entry key val \<Rightarrow> if isSet w key then [] else [l] | _ \<Rightarrow> [l])"
  by (cases "classify l") (simp_all add: cleanLoop_classify)

lemma cleanLoop_snoc:
  "cleanLoop w (ls @ [l]) = cleanLoop w ls @
     (case classify l of
        Entry key val \<Rightarrow> if isSet w key \<or> key \<in> set (lineKeys ls) then [] else [l]
      | _ \<Rightarrow> [l])"
proof (induction ls arbitrary: w)
  case Nil
  show ?case by (cases "classify l") (simp_all add: cleanLoop_single lineKeys_Nil)
next
  case (Cons x xs)
  show ?case
  proof (cases x w rule: line_cases)
    case (Entry_new k v)
    have A: "cleanLoop w (x # xs @ [l]) = x # cleanLoop (w(k \<mapsto> True)) (xs @ [l])"
      by (simp add: cleanLoop_Entry_new[OF Entry_new] del: fun_upd_apply)
    have B: "cleanLoop (w(k \<mapsto> True)) (xs @ [l]) = cleanLoop (w(k \<mapsto> True)) xs @
       (case classify l of
          Entry key val \<Rightarrow> if isSet (w(k \<mapsto> True)) key \<or> key \<in> set (lineKeys xs) then [] else [l]
        | _ \<Rightarrow> [l])"
      by (rule Cons.IH)
    have C: "(case classify l of
          Entry key val \<Rightarrow> if isSet (w(k \<mapsto> True)) key \<or> key \<in> set (lineKeys xs) then [] else [l]
        | _ \<Rightarrow> [l]) = (case classify l of
          Entry key val \<Rightarrow> if isSet w key \<or> key \<in> set (lineKeys (x # xs)) then [] else [l]
        | _ \<Rightarrow> [l])"
      by (cases "classify l")
         (auto simp: lineKeys_Cons_Entry[OF Entry_new(1)] isSet_upd simp del: fun_upd_apply)
    have D: "cleanLoop w (x # xs) = x # cleanLoop (w(k \<mapsto> True)) xs"
      by (rule cleanLoop_Entry_new[OF Entry_new])
    show ?thesis
      by (simp only: A B C D append_Cons)
  next
    case (Entry_old k v)
    have "(case classify l of
          Entry key val \<Rightarrow> if isSet w key \<or> key \<in> set (lineKeys xs) then [] else [l]
        | _ \<Rightarrow> [l]) = (case classify l of
          Entry key val \<Rightarrow> if isSet w key \<or> key \<in> set (lineKeys (x # xs)) then [] else [l]
        | _ \<Rightarrow> [l])"
      using Entry_old by (cases "classify l") (auto simp: lineKeys_Cons_Entry[OF Entry_old(1)] simp del: fun_upd_apply)
    then show ?thesis using Entry_old by (simp add: cleanLoop_Entry_old[OF Entry_old] Cons.IH del: fun_upd_apply)
  next
    case Other
    then show ?thesis
      by (simp only: append_Cons cleanLoop_other lineKeys_Cons_other Cons.IH)
  qed
qed

lemma survives_snoc_old: "i < length ls \<Longrightarrow> survives (ls @ [l]) i = survives ls i"
  by (simp add: survives_def nth_append split: lineClass.splits)

lemma survives_snoc_new:
  "survives (ls @ [l]) (length ls) \<longleftrightarrow>
     (case classify l of Entry key val \<Rightarrow> key \<notin> set (lineKeys ls) | _ \<Rightarrow> True)"
  by (simp add: survives_def split: lineClass.splits)

lemma cleanLoop_positions:
  "cleanLoop Map.empty lines = map ((!) lines) (filter (survives lines) [0..<length lines])"
proof (induction lines rule: rev_induct)
  case Nil
  then show ?case by simp
next
  case (snoc l ls)
  have f: "filter (survives (ls @ [l])) [0..<length ls] = filter (survives ls) [0..<length ls]"
    by (rule filter_cong) (simp_all add: survives_snoc_old)
  have m: "map ((!) (ls @ [l])) (filter (survives ls) [0..<length ls])
      = map ((!) ls) (filter (survives ls) [0..<length ls])"
    by (rule map_cong) (simp_all add: nth_append)
  have last: "(case classify l of
        Entry key val \<Rightarrow> if isSet Map.empty key \<or> key \<in> set (lineKeys ls) then [] else [l]
      | _ \<Rightarrow> [l]) = (if survives (ls @ [l]) (length ls) then [l] else [])"
    by (cases "classify l") (simp_all add: survives_snoc_new isSet_empty)
  show ?case
    unfolding cleanLoop_snoc last snoc.IH
    by (simp add: f m del: map_eq_conv)
qed

lemma printedLines_append: "printedLines (xs @ ys) = printedLines xs @ printedLines ys"
  by (induction xs rule: printedLines.induct) simp_all

lemma printedLines_Fprintln: "printedLines (map Fprintln ls) = ls"
  by (induction ls) simp_all

lemma written_append: "written (xs @ ys) = written xs @ written ys"
  by (induction xs rule: written.induct) simp_all

lemma written_printedLines: "written cs = concat (map (\<lambda>l. l @ [CHR 0x0A]) (printedLines cs))"
  by (induction cs rule: written.induct) simp_all

lemma createCleanFile_ok:
  assumes "createCleanFile os_MkdirAll os_Create filename uniq raw = (None, calls)"
  shows "printedLines calls = cleanLoop Map.empty raw"
proof -
  define mk where "mk = (if filepath_Dir filename \<noteq> ''.'' \<and> filepath_Dir filename \<noteq> []
                         then [MkdirAll (filepath_Dir filename)] else [])"
  have pm: "printedLines mk = []" by (simp add: mk_def)
  from assms have "calls = mk @ [Create filename] @ map Fprintln (cleanLoop Map.empty raw) @ [Close]"
    by (auto simp: createCleanFile_def Let_def mk_def split: if_splits option.splits)
  then show ?thesis
    by (simp add: printedLines_append pm printedLines_Fprintln)
qed

lemma hasKey_filter:
  "length (filter (hasKey k) ls) = length (filter (\<lambda>x. x = k) (lineKeys ls))"
proof (induction ls)
  case Nil
  then show ?case by (simp add: lineKeys_Nil)
next
  case (Cons l ls)
  then show ?case
    by (cases "classify l") (simp_all add: lineKeys_Cons hasKey_def)
qed

lemma distinct_filter_one: "distinct xs \<Longrightarrow> k \<in> set xs \<Longrightarrow> length (filter (\<lambda>x. x = k) xs) = 1"
proof (induction xs)
  case Nil
  then show ?case by simp
next
  case (Cons x xs)
  show ?case
  proof (cases "x = k")
    case True
    with Cons.prems have "k \<notin> set xs" by simp
    then have "filter (\<lambda>x. x = k) xs = []" by (auto simp: filter_empty_conv)
    with True show ?thesis by simp
  next
    case False
    with Cons show ?thesis by simp
  qed
qed

lemma cleanLoop_empty_keys: "set (lineKeys (cleanLoop Map.empty ls)) = set (lineKeys ls)"
  using cleanLoop_keys[of _ Map.empty ls] by (auto simp: isSet_empty)

lemma survives_iff:
  "survives lines i \<longleftrightarrow>
     isPassthrough (lines ! i)
     \<or> (\<exists>key val. classify (lines ! i) = Entry key val
           \<and> key \<notin> set (lineKeys (cleanLoop Map.empty (take i lines))))"
  by (cases "classify (lines ! i)")
     (simp_all add: survives_def isPassthrough_def cleanLoop_empty_keys)

lemma analyze_ok:
  assumes "os_Open filename = Inr (Reader lines None)"
  shows "\<exists>dk ue. analyzeLocalizationFile os_Open filename = (dk, ue, lines, None)"
  using assms by (simp add: analyzeLocalizationFile_def scanLoop_closed)

text \<open>
  C4. The lines written by \<open>createCleanFile\<close> are a subsequence of \<open>rawLines\<close>: the lines
  at the surviving positions, in their order. Every line that is not an entry survives;
  an entry line survives exactly when its key is not among the keys emitted for the
  lines before it. So no key is written twice, the keys written are the keys of the
  input, and each key of the input has exactly one entry line in the output.
\<close>

theorem cleaned_output_policy:
  assumes "createCleanFile os_MkdirAll os_Create filename uniqueEntries rawLines = (None, calls)"
  shows "subseq (printedLines calls) rawLines
       \<and> printedLines calls
           = map ((!) rawLines) (filter (survives rawLines) [0..<length rawLines])
       \<and> (\<forall>i < length rawLines.
            survives rawLines i \<longleftrightarrow>
              isPassthrough (rawLines ! i)
              \<or> (\<exists>key val. classify (rawLines ! i) = Entry key val
                    \<and> key \<notin> set (lineKeys (cleanLoop Map.empty (take i rawLines)))))
       \<and> distinct (lineKeys (printedLines calls))
       \<and> set (lineKeys (printedLines calls)) = set (lineKeys rawLines)
       \<and> (\<forall>key \<in> set (lineKeys rawLines).
            length (filter (hasKey key) (printedLines calls)) = 1)"
proof -
  have p: "printedLines calls = cleanLoop Map.empty rawLines"
    using assms by (rule createCleanFile_ok)
  have one: "\<forall>key \<in> set (lineKeys rawLines).
            length (filter (hasKey key) (cleanLoop Map.empty rawLines)) = 1"
    by (simp add: hasKey_filter distinct_filter_one cleanLoop_distinct cleanLoop_empty_keys)
  have pos: "cleanLoop Map.empty rawLines
           = map ((!) rawLines) (filter (survives rawLines) [0..<length rawLines])"
    by (rule cleanLoop_positions)
  have sv: "\<forall>i < length rawLines.
            survives rawLines i \<longleftrightarrow>
              isPassthrough (rawLines ! i)
              \<or> (\<exists>key val. classify (rawLines ! i) = Entry key val
                    \<and> key \<notin> set (lineKeys (cleanLoop Map.empty (take i rawLines))))"
    using survives_iff by blast
  show ?thesis
    unfolding p
    using cleanLoop_subseq[of Map.empty rawLines] pos sv cleanLoop_distinct[of Map.empty rawLines]
      cleanLoop_empty_keys[of rawLines] one
    by (intro conjI) assumption+
qed

theorem cleaned_output_policy_witness:
  \<open>subseq [''"A" = "1";'', ''// c'', '''', ''"B" = "2";'', ''junk'']
          [''"A" = "1";'', ''// c'', '''', ''"B" = "2";'', ''"A" = "3";'', ''junk'']
   \<and> set (lineKeys [''"A" = "1";'', ''// c'', '''', ''"B" = "2";'', ''junk''])
       = set (lineKeys [''"A" = "1";'', ''// c'', '''', ''"B" = "2";'', ''"A" = "3";'', ''junk''])
   \<and> distinct (lineKeys [''"A" = "1";'', ''// c'', '''', ''"B" = "2";'', ''junk''])\<close>
proof -
  have c: \<open>createCleanFile (\<lambda>d. None) (\<lambda>f. None) ''out/clean.strings'' Map.empty
             [''"A" = "1";'', ''// c'', '''', ''"B" = "2";'', ''"A" = "3";'', ''junk'']
           = (None, [MkdirAll ''out'', Create ''out/clean.strings'',
                Fprintln ''"A" = "1";'', Fprintln ''// c'', Fprintln '''',
                Fprintln ''"B" = "2";'', Fprintln ''junk'', Close])\<close>
    by code_simp
  have pl: \<open>printedLines [MkdirAll ''out'', Create ''out/clean.strings'',
                Fprintln ''"A" = "1";'', Fprintln ''// c'', Fprintln '''',
                Fprintln ''"B" = "2";'', Fprintln ''junk'', Close]
      = [''"A" = "1";'', ''// c'', '''', ''"B" = "2";'', ''junk'']\<close>
    by simp
  from cleaned_output_policy[OF c] show ?thesis
    unfolding pl by blast
qed

lemma createCleanFile_idem:
  assumes "createCleanFile os_MkdirAll os_Create filename uniqueEntries rawLines = (None, calls)"
    and "createCleanFile os_MkdirAll' os_Create' filename' uniqueEntries' (printedLines calls)
           = (None, calls')"
  shows "printedLines calls' = printedLines calls \<and> written calls' = written calls"
proof -
  have "printedLines calls = cleanLoop Map.empty rawLines"
    using assms(1) by (rule createCleanFile_ok)
  moreover have "printedLines calls' = cleanLoop Map.empty (printedLines calls)"
    using assms(2) by (rule createCleanFile_ok)
  ultimately have "printedLines calls' = printedLines calls"
    by (simp add: cleanLoop_idem)
  then show ?thesis by (simp add: written_printedLines)
qed

text \<open>
  C7. Every line is kept as it is in \<open>rawLines\<close>, and the lines that are not entries
  (blank, comment or unrecognized) are all written to the cleaned file, unchanged and
  in their order.
\<close>

theorem passthrough_preserved:
  assumes "os_Open filename = Inr (Reader lines None)"
    and "analyzeLocalizationFile os_Open filename = (duplicateKeys, uniqueEntries, rawLines, err)"
    and "createCleanFile os_MkdirAll os_Create cleanFile uniqueEntries rawLines = (None, calls)"
  shows "rawLines = lines
       \<and> filter isPassthrough (printedLines calls) = filter isPassthrough lines
       \<and> (\<forall>line \<in> set lines. isPassthrough line \<longrightarrow>
             line \<in> set rawLines \<and> line \<in> set (printedLines calls))"
proof -
  obtain ke dk ue rl n where h: "scanLoop scanInit lines = (ke, dk, ue, rl, n)"
    by (metis prod_cases5)
  then have "rl = lines" by (rule scanLoop_components)
  with assms(1,2) h have r: "rawLines = lines"
    by (simp add: analyzeLocalizationFile_def)
  have p: "printedLines calls = cleanLoop Map.empty lines"
    using assms(3) unfolding r by (rule createCleanFile_ok)
  have f: "filter isPassthrough (printedLines calls) = filter isPassthrough lines"
    by (simp add: p cleanLoop_passthrough)
  have "line \<in> set (printedLines calls)" if "line \<in> set lines" "isPassthrough line" for line
  proof -
    from that have "line \<in> set (filter isPassthrough lines)" by simp
    then have "line \<in> set (filter isPassthrough (printedLines calls))" by (simp only: f)
    then show ?thesis by simp
  qed
  with r f show ?thesis by blast
qed

theorem passthrough_preserved_witness:
  \<open>filter isPassthrough [''// c'', '''', ''"X" = "Y";'', ''junk'']
     = filter isPassthrough [''// c'', '''', ''"X" = "Y";'', ''"X" = "Z";'', ''junk'']
   \<and> ''// c'' \<in> set [''// c'', '''', ''"X" = "Y";'', ''junk'']\<close>
proof -
  define L where \<open>L = [''// c'', '''', ''"X" = "Y";'', ''"X" = "Z";'', ''junk'']\<close>
  define opn :: openFn where "opn = (\<lambda>f. Inr (Reader L None))"
  have o: "opn ''Localizable.strings'' = Inr (Reader L None)"
    by (simp add: opn_def)
  obtain dk ue where a: "analyzeLocalizationFile opn ''Localizable.strings'' = (dk, ue, L, None)"
    using analyze_ok[of opn "''Localizable.strings''" L, OF o] by blast
  have \<open>createCleanFile (\<lambda>d. None) (\<lambda>f. None) ''clean.strings'' Map.empty
             [''// c'', '''', ''"X" = "Y";'', ''"X" = "Z";'', ''junk'']
           = (None, [Create ''clean.strings'', Fprintln ''// c'', Fprintln '''',
                Fprintln ''"X" = "Y";'', Fprintln ''junk'', Close])\<close>
    by code_simp
  then have c: \<open>createCleanFile (\<lambda>d. None) (\<lambda>f. None) ''clean.strings'' ue L
           = (None, [Create ''clean.strings'', Fprintln ''// c'', Fprintln '''',
                Fprintln ''"X" = "Y";'', Fprintln ''junk'', Close])\<close>
    by (simp add: createCleanFile_def L_def)
  have pl: \<open>printedLines [Create ''clean.strings'', Fprintln ''// c'', Fprintln '''',
                Fprintln ''"X" = "Y";'', Fprintln ''junk'', Close]
      = [''// c'', '''', ''"X" = "Y";'', ''junk'']\<close>
    by simp
  have m: \<open>''// c'' \<in> set [''// c'', '''', ''"X" = "Y";'', ''junk'']\<close>
    by simp
  from passthrough_preserved[of opn "''Localizable.strings''" L, OF o a c] m show ?thesis
    unfolding pl L_def by blast
qed

subsection \<open>The request to clean into the input file\<close>

lemma splitSep_nonempty: "splitSep s \<noteq> []"
  by (induction s) (auto split: list.splits)

lemma splitSep_plain: "CHR ''/'' \<notin> set name \<Longrightarrow> splitSep name = [name]"
  by (induction name) auto

lemma splitSep_append: "splitSep (d @ CHR ''/'' # r) = splitSep d @ splitSep r"
proof (induction d)
  case Nil
  show ?case by simp
next
  case (Cons c d)
  obtain e es where s: "splitSep d = e # es"
    using splitSep_nonempty[of d] by (cases "splitSep d") auto
  show ?case
    by (simp add: Cons.IH s)
qed

lemma cleanElems_snoc:
  assumes "e \<noteq> []" "e \<noteq> ''.''" "e \<noteq> ''..''"
  shows "cleanElems rooted out (es @ [e]) = cleanElems rooted out es @ [e]"
proof (induction es arbitrary: out rooted)
  case Nil
  show ?case using assms by simp
next
  case (Cons x xs)
  show ?case by (simp add: Cons.IH)
qed

lemma joinSep_snoc:
  "joinSep (xs @ [e]) = (if xs = [] then e else joinSep xs @ CHR ''/'' # e)"
  by (induction xs rule: joinSep.induct) simp_all

lemma filepath_Clean_nonempty: "filepath_Clean path \<noteq> []"
  by (simp add: filepath_Clean_def Let_def)

lemma filepath_Clean_last_elem:
  assumes "name \<noteq> []" "CHR ''/'' \<notin> set name" "name \<noteq> ''.''" "name \<noteq> ''..''"
  shows "\<exists>p. filepath_Clean (d @ CHR ''/'' # name) = p @ name \<and> (p = [] \<or> last p = CHR ''/'')"
proof -
  define path where "path = d @ CHR ''/'' # name"
  define rooted where "rooted = (hd path = CHR ''/'')"
  define xs where "xs = cleanElems rooted [] (splitSep d)"
  have elems: "cleanElems rooted [] (splitSep path) = xs @ [name]"
    by (simp add: path_def xs_def splitSep_append splitSep_plain assms cleanElems_snoc)
  have j: "joinSep (xs @ [name]) = (if xs = [] then name else joinSep xs @ CHR ''/'' # name)"
    by (rule joinSep_snoc)
  have ne: "joinSep (xs @ [name]) \<noteq> []"
    using assms(1) by (simp add: j)
  have pne: "path \<noteq> []" by (simp add: path_def)
  have "filepath_Clean path
      = (let out = joinSep (cleanElems rooted [] (splitSep path))
         in if rooted then CHR ''/'' # out else if out = [] then ''.'' else out)"
    using pne by (simp add: filepath_Clean_def rooted_def Let_def)
  then have c: "filepath_Clean path
      = (if rooted then CHR ''/'' # joinSep (xs @ [name]) else joinSep (xs @ [name]))"
    using ne by (simp only: elems Let_def if_False)
  show ?thesis
  proof (cases "xs = []")
    case True
    then have jn: "joinSep (xs @ [name]) = name" by (simp add: j)
    show ?thesis
    proof (cases rooted)
      case True
      then have "filepath_Clean path = ''/'' @ name" by (simp add: c jn)
      moreover have "last ''/'' = CHR ''/''" by simp
      ultimately show ?thesis unfolding path_def by blast
    next
      case False
      then have "filepath_Clean path = [] @ name" by (simp add: c jn)
      then show ?thesis unfolding path_def by blast
    qed
  next
    case False
    then have jn: "joinSep (xs @ [name]) = (joinSep xs @ ''/'') @ name" by (simp add: j)
    have "filepath_Clean path = ((if rooted then ''/'' else []) @ joinSep xs @ ''/'') @ name"
      by (simp add: c jn)
    moreover have "last ((if rooted then ''/'' else []) @ joinSep xs @ ''/'') = CHR ''/''"
      by simp
    ultimately show ?thesis unfolding path_def by blast
  qed
qed

lemma takeWhile_until: "c \<notin> set xs \<Longrightarrow> takeWhile (\<lambda>x. x \<noteq> c) (xs @ c # ys) = xs"
  by (induction xs) auto

lemma takeWhile_all: "c \<notin> set xs \<Longrightarrow> takeWhile (\<lambda>x. x \<noteq> c) xs = xs"
  by (induction xs) auto

lemma dropWhile_hd: "xs \<noteq> [] \<Longrightarrow> \<not> P (hd xs) \<Longrightarrow> dropWhile P xs = xs"
  by (cases xs) auto

lemma takeWhile_rev_last_elem:
  assumes "CHR ''/'' \<notin> set name" "p = [] \<or> last p = CHR ''/''"
  shows "takeWhile (\<lambda>c. c \<noteq> CHR ''/'') (rev (p @ name)) = rev name"
proof (cases "p = []")
  case True
  with assms(1) show ?thesis by (simp add: takeWhile_all)
next
  case False
  with assms(2) obtain q where p: "p = q @ ''/''"
    by (metis append_butlast_last_id)
  have "takeWhile (\<lambda>c. c \<noteq> CHR ''/'') (rev name @ CHR ''/'' # rev q) = rev name"
    using assms(1) by (simp add: takeWhile_until)
  then show ?thesis by (simp add: p)
qed

lemma filepath_Base_last_elem:
  assumes "name \<noteq> []" "CHR ''/'' \<notin> set name" "p = [] \<or> last p = CHR ''/''"
  shows "filepath_Base (p @ name) = name"
proof -
  have l: "last (p @ name) \<noteq> CHR ''/''"
  proof -
    have "last (p @ name) = last name" using assms(1) by simp
    moreover have "last name \<in> set name" using assms(1) by simp
    ultimately show ?thesis using assms(2) by metis
  qed
  have "rev (p @ name) \<noteq> []" using assms(1) by simp
  moreover have "hd (rev (p @ name)) = last (p @ name)"
    by (rule hd_rev)
  ultimately have "hd (rev (p @ name)) \<noteq> CHR ''/''"
    using l by metis
  with \<open>rev (p @ name) \<noteq> []\<close>
  have d: "dropWhile (\<lambda>c. c = CHR ''/'') (rev (p @ name)) = rev (p @ name)"
    by (rule dropWhile_hd)
  show ?thesis
    unfolding filepath_Base_def Let_def d
    using assms(1) takeWhile_rev_last_elem[OF assms(2,3)] by simp
qed

lemma extLoop_char:
  "extLoop r acc =
     (case dropWhile (\<lambda>c. c \<noteq> CHR ''/'' \<and> c \<noteq> CHR ''.'') r of
        [] \<Rightarrow> []
      | c # _ \<Rightarrow> if c = CHR ''.''
                 then CHR ''.'' # rev (takeWhile (\<lambda>c. c \<noteq> CHR ''/'' \<and> c \<noteq> CHR ''.'') r) @ acc
                 else [])"
proof (induction r arbitrary: acc)
  case Nil
  show ?case by simp
next
  case (Cons c r)
  consider "c = CHR ''/''" | "c = CHR ''.''" | "c \<noteq> CHR ''/''" "c \<noteq> CHR ''.''" by blast
  then show ?case
  proof cases
    case 1
    then show ?thesis by simp
  next
    case 2
    then show ?thesis by simp
  next
    case 3
    have e: "extLoop (c # r) acc = extLoop r (c # acc)" using 3 by simp
    have d: "dropWhile (\<lambda>c. c \<noteq> CHR ''/'' \<and> c \<noteq> CHR ''.'') (c # r)
        = dropWhile (\<lambda>c. c \<noteq> CHR ''/'' \<and> c \<noteq> CHR ''.'') r" using 3 by simp
    have t: "takeWhile (\<lambda>c. c \<noteq> CHR ''/'' \<and> c \<noteq> CHR ''.'') (c # r)
        = c # takeWhile (\<lambda>c. c \<noteq> CHR ''/'' \<and> c \<noteq> CHR ''.'') r" using 3 by simp
    have nn: "\<exists>x\<in>set r. x = CHR ''/'' \<or> x = CHR ''.''"
      if "dropWhile (\<lambda>c. c \<noteq> CHR ''/'' \<and> c \<noteq> CHR ''.'') r = a # b" for a b
    proof -
      from that have "dropWhile (\<lambda>c. c \<noteq> CHR ''/'' \<and> c \<noteq> CHR ''.'') r \<noteq> []" by simp
      then show ?thesis by (simp add: dropWhile_eq_Nil_conv)
    qed
    show ?thesis
      unfolding e d t Cons.IH
      using nn by (simp split: list.split) blast
  qed
qed

lemma filepath_Ext_no_sep: "CHR ''/'' \<notin> set (filepath_Ext path)"
proof -
  have "CHR ''/'' \<notin> set (takeWhile (\<lambda>c. c \<noteq> CHR ''/'' \<and> c \<noteq> CHR ''.'') r)" for r
    by (auto dest: set_takeWhileD)
  then show ?thesis
    by (auto simp: filepath_Ext_def extLoop_char split: list.splits if_splits)
qed

lemma filepath_Ext_suffix_rev:
  "\<exists>s. rev (takeWhile (\<lambda>c. c \<noteq> CHR ''/'') r) = s @ extLoop r []"
proof (cases "dropWhile (\<lambda>c. c \<noteq> CHR ''/'' \<and> c \<noteq> CHR ''.'') r")
  case Nil
  have "extLoop r [] = []" unfolding extLoop_char Nil by simp
  then show ?thesis by simp
next
  case (Cons c r')
  let ?t = "takeWhile (\<lambda>c. c \<noteq> CHR ''/'' \<and> c \<noteq> CHR ''.'') r"
  have r: "r = ?t @ c # r'" using Cons by (metis takeWhile_dropWhile_id)
  have c: "c = CHR ''/'' \<or> c = CHR ''.''"
    using hd_dropWhile[of "\<lambda>c. c \<noteq> CHR ''/'' \<and> c \<noteq> CHR ''.''" r] Cons by auto
  have t: "\<forall>x \<in> set ?t. x \<noteq> CHR ''/''" by (auto dest: set_takeWhileD)
  show ?thesis
  proof (cases "c = CHR ''.''")
    case True
    have "takeWhile (\<lambda>c. c \<noteq> CHR ''/'') r
        = ?t @ CHR ''.'' # takeWhile (\<lambda>c. c \<noteq> CHR ''/'') r'"
      using t True by (subst r) (simp add: takeWhile_append2)
    then have "rev (takeWhile (\<lambda>c. c \<noteq> CHR ''/'') r)
        = rev (takeWhile (\<lambda>c. c \<noteq> CHR ''/'') r') @ CHR ''.'' # rev ?t"
      by simp
    moreover have "extLoop r [] = CHR ''.'' # rev ?t"
      unfolding extLoop_char Cons using True by simp
    ultimately show ?thesis by simp
  next
    case False
    have "extLoop r [] = []" unfolding extLoop_char Cons using False by simp
    then show ?thesis by simp
  qed
qed

lemma filepath_Ext_suffix_Base:
  "\<exists>stem. filepath_Base path = stem @ filepath_Ext path"
proof (cases "path = [] \<or> last path = CHR ''/''")
  case True
  then have "filepath_Ext path = []"
    by (cases path rule: rev_cases) (auto simp: filepath_Ext_def)
  then show ?thesis by simp
next
  case False
  then have ne: "path \<noteq> []" and l: "last path \<noteq> CHR ''/''" by simp_all
  have hr: "hd (rev path) \<noteq> CHR ''/''" using l by (simp add: hd_rev)
  have rne: "rev path \<noteq> []" using ne by simp
  have d: "dropWhile (\<lambda>c. c = CHR ''/'') (rev path) = rev path"
    using rne hr by (rule dropWhile_hd)
  have t: "takeWhile (\<lambda>c. c \<noteq> CHR ''/'') (rev path) \<noteq> []"
    using ne \<open>hd (rev path) \<noteq> CHR ''/''\<close> by (cases "rev path") auto
  have "filepath_Base path = rev (takeWhile (\<lambda>c. c \<noteq> CHR ''/'') (rev path))"
    using ne t by (simp add: filepath_Base_def Let_def d)
  then show ?thesis
    using filepath_Ext_suffix_rev[of "rev path"] by (simp add: filepath_Ext_def)
qed

lemma TrimSuffix_append: "TrimSuffix (stem @ ext) ext = stem"
  by (simp add: TrimSuffix_def HasSuffix_def)

lemma filepath_Base_no_sep:
  "filepath_Base path \<noteq> ''/'' \<Longrightarrow> CHR ''/'' \<notin> set (filepath_Base path)"
  by (auto simp: filepath_Base_def Let_def split: if_splits dest: set_takeWhileD)

lemma filepath_Join_two:
  "d \<noteq> [] \<Longrightarrow> filepath_Join [d, name] = filepath_Clean (d @ CHR ''/'' # name)"
  by (simp add: filepath_Join_def)

lemma createUniqueFilename_form:
  "\<exists>stem. filepath_Base inputFile = stem @ filepath_Ext inputFile
     \<and> createUniqueFilename inputFile
         = filepath_Join [filepath_Dir inputFile, stem @ ''-cleaned'' @ filepath_Ext inputFile]
     \<and> (filepath_Base inputFile \<noteq> ''/'' \<longrightarrow>
          filepath_Base (createUniqueFilename inputFile)
            = stem @ ''-cleaned'' @ filepath_Ext inputFile)"
proof -
  obtain stem where b: "filepath_Base inputFile = stem @ filepath_Ext inputFile"
    using filepath_Ext_suffix_Base by blast
  let ?name = "stem @ ''-cleaned'' @ filepath_Ext inputFile"
  have u: "createUniqueFilename inputFile = filepath_Join [filepath_Dir inputFile, ?name]"
    by (simp add: createUniqueFilename_def Let_def b TrimSuffix_append)
  have base: "filepath_Base (createUniqueFilename inputFile) = ?name"
    if "filepath_Base inputFile \<noteq> ''/''"
  proof -
    have "CHR ''/'' \<notin> set (filepath_Base inputFile)"
      using that by (rule filepath_Base_no_sep)
    then have ns: "CHR ''/'' \<notin> set ?name"
      by (simp add: b)
    have m: "CHR ''-'' \<in> set ?name" by simp
    have n1: "?name \<noteq> []" by simp
    have n2: "?name \<noteq> ''.''"
    proof
      assume "?name = ''.''"
      with m have "CHR ''-'' \<in> set ''.''" by simp
      then show False by simp
    qed
    have n3: "?name \<noteq> ''..''"
    proof
      assume "?name = ''..''"
      with m have "CHR ''-'' \<in> set ''..''" by simp
      then show False by simp
    qed
    have dne: "filepath_Dir inputFile \<noteq> []"
      by (simp add: filepath_Dir_def filepath_Clean_nonempty)
    obtain p where p: "filepath_Clean (filepath_Dir inputFile @ CHR ''/'' # ?name) = p @ ?name"
      "p = [] \<or> last p = CHR ''/''"
      using filepath_Clean_last_elem[OF n1 ns n2 n3] by blast
    show ?thesis
      unfolding u filepath_Join_two[OF dne] p(1)
      by (rule filepath_Base_last_elem[OF n1 ns p(2)])
  qed
  from b u base show ?thesis by blast
qed

text \<open>
  C8. When the cleaned file is requested at a path that \<open>filepath.Clean\<close> maps to the same
  path as the input file, \<open>main\<close> rejects the request without a call to the file system
  (no directory made, no file created, nothing written) and suggests
  \<open>createUniqueFilename inputFile\<close>: the directory of the input file joined with its base
  name in which \<open>-cleaned\<close> stands before the extension.
\<close>

theorem same_path_rejected:
  assumes "cleanFile \<noteq> []" and "filepath_Clean cleanFile = filepath_Clean inputFile"
  shows "mainCleanStep os_MkdirAll os_Create cleanFile inputFile uniqueEntries rawLines
           = (Rejected (createUniqueFilename inputFile), [])
       \<and> (\<exists>stem. filepath_Base inputFile = stem @ filepath_Ext inputFile
             \<and> createUniqueFilename inputFile
                 = filepath_Join [filepath_Dir inputFile,
                                  stem @ ''-cleaned'' @ filepath_Ext inputFile]
             \<and> (filepath_Base inputFile \<noteq> ''/'' \<longrightarrow>
                  filepath_Base (createUniqueFilename inputFile)
                    = stem @ ''-cleaned'' @ filepath_Ext inputFile))"
  using assms createUniqueFilename_form[of inputFile]
  by (simp add: mainCleanStep_def)

theorem same_path_rejected_witness:
  "mainCleanStep (\<lambda>d. None) (\<lambda>f. None) ''./res//Localizable.strings'' ''res/Localizable.strings''
       Map.empty [''// c'']
     = (Rejected ''res/Localizable-cleaned.strings'', [])"
proof -
  have n: "''./res//Localizable.strings'' \<noteq> []" by simp
  have c: "filepath_Clean ''./res//Localizable.strings'' = filepath_Clean ''res/Localizable.strings''"
    by code_simp
  have u: "createUniqueFilename ''res/Localizable.strings'' = ''res/Localizable-cleaned.strings''"
    by code_simp
  from same_path_rejected[OF n c, of "\<lambda>d. None" "\<lambda>f. None" Map.empty "[''// c'']"]
  show ?thesis unfolding u by blast
qed

subsection \<open>Cleaning the cleaned file\<close>

lemma set_dropCR: "set (dropCR data) \<subseteq> set data"
  by (auto simp: dropCR_def dest: in_set_butlastD)

lemma dropCR_no_CR: "\<not> endsInCR line \<Longrightarrow> dropCR line = line"
  by (auto simp: dropCR_def endsInCR_def)

lemma dropCR_fixed: "dropCR line = line \<Longrightarrow> \<not> endsInCR line"
proof
  assume d: "dropCR line = line" and e: "endsInCR line"
  then have "butlast line = line" by (simp add: dropCR_def endsInCR_def)
  then have "length (butlast line) = length line" by simp
  then have "length line - 1 = length line" by (simp only: length_butlast)
  moreover from e have "0 < length line" by (simp add: endsInCR_def)
  ultimately show False by linarith
qed

lemma scanFrom_line:
  "CHR 0x0A \<notin> set l \<Longrightarrow>
   scanFrom cur (l @ CHR 0x0A # rest) = dropCR (rev cur @ l) # scanFrom [] rest"
proof (induction l arbitrary: cur)
  case Nil
  show ?case by simp
next
  case (Cons c l)
  then have "c \<noteq> CHR 0x0A" and "CHR 0x0A \<notin> set l" by auto
  then show ?case using Cons.IH[of "c # cur"] by simp
qed

lemma scanFrom_no_LF:
  "CHR 0x0A \<notin> set cur \<Longrightarrow> t \<in> set (scanFrom cur data) \<Longrightarrow> CHR 0x0A \<notin> set t"
proof (induction data arbitrary: cur)
  case Nil
  then show ?case using set_dropCR[of "rev cur"] by (auto split: if_splits)
next
  case (Cons c data)
  show ?case
  proof (cases "c = CHR 0x0A")
    case True
    with Cons.prems(2) have "t = dropCR (rev cur) \<or> t \<in> set (scanFrom [] data)" by simp
    then show ?thesis
    proof
      assume "t = dropCR (rev cur)"
      then show ?thesis using Cons.prems(1) set_dropCR[of "rev cur"] by auto
    next
      assume "t \<in> set (scanFrom [] data)"
      then show ?thesis using Cons.IH[of "[]"] by simp
    qed
  next
    case False
    with Cons.prems(2) have "t \<in> set (scanFrom (c # cur) data)" by simp
    moreover have "CHR 0x0A \<notin> set (c # cur)" using False Cons.prems(1) by auto
    ultimately show ?thesis using Cons.IH[of "c # cur"] by blast
  qed
qed

lemma scanLines_no_LF: "t \<in> set (scanLines content) \<Longrightarrow> CHR 0x0A \<notin> set t"
  unfolding scanLines_def using scanFrom_no_LF[of "[]"] by simp

lemma scanLines_written_lines:
  "(\<forall>l \<in> set ls. CHR 0x0A \<notin> set l) \<Longrightarrow>
   scanLines (concat (map (\<lambda>l. l @ [CHR 0x0A]) ls)) = map dropCR ls"
proof (induction ls)
  case Nil
  show ?case by (simp add: scanLines_def)
next
  case (Cons l ls)
  then have l: "CHR 0x0A \<notin> set l" and IH: "scanLines (concat (map (\<lambda>l. l @ [CHR 0x0A]) ls)) = map dropCR ls"
    by simp_all
  have "scanFrom [] (l @ CHR 0x0A # concat (map (\<lambda>l. l @ [CHR 0x0A]) ls))
      = dropCR (rev [] @ l) # scanFrom [] (concat (map (\<lambda>l. l @ [CHR 0x0A]) ls))"
    using l by (rule scanFrom_line)
  then show ?case using IH by (simp add: scanLines_def)
qed

lemma split_at_char:
  assumes "c \<notin> set a" "c \<notin> set b" "a @ c # x = b @ c # y"
  shows "a = b \<and> x = y"
proof -
  have "takeWhile (\<lambda>x. x \<noteq> c) (a @ c # x) = a" using assms(1) by (rule takeWhile_until)
  moreover have "takeWhile (\<lambda>x. x \<noteq> c) (b @ c # y) = b" using assms(2) by (rule takeWhile_until)
  ultimately have "a = b" using assms(3) by simp
  with assms(3) show ?thesis by simp
qed

lemma written_lines_inj:
  "(\<forall>l \<in> set xs. CHR 0x0A \<notin> set l) \<Longrightarrow> (\<forall>l \<in> set ys. CHR 0x0A \<notin> set l) \<Longrightarrow>
   concat (map (\<lambda>l. l @ [CHR 0x0A]) xs) = concat (map (\<lambda>l. l @ [CHR 0x0A]) ys) \<Longrightarrow> xs = ys"
proof (induction xs arbitrary: ys)
  case Nil
  show ?case
  proof (cases ys)
    case Nil
    then show ?thesis by simp
  next
    case (Cons y ys')
    with Nil.prems(3) show ?thesis by simp
  qed
next
  case (Cons x xs)
  show ?case
  proof (cases ys)
    case Nil
    with Cons.prems(3) show ?thesis by simp
  next
    case ys: (Cons y ys')
    have e: "x @ CHR 0x0A # concat (map (\<lambda>l. l @ [CHR 0x0A]) xs)
        = y @ CHR 0x0A # concat (map (\<lambda>l. l @ [CHR 0x0A]) ys')"
      using Cons.prems(3) unfolding ys by simp
    have nx: "CHR 0x0A \<notin> set x" using Cons.prems(1) by simp
    have ny: "CHR 0x0A \<notin> set y" using Cons.prems(2) unfolding ys by simp
    have xy: "x = y \<and> concat (map (\<lambda>l. l @ [CHR 0x0A]) xs)
        = concat (map (\<lambda>l. l @ [CHR 0x0A]) ys')"
      using nx ny e by (rule split_at_char)
    have ax: "\<forall>l \<in> set xs. CHR 0x0A \<notin> set l" using Cons.prems(1) by simp
    have ay: "\<forall>l \<in> set ys'. CHR 0x0A \<notin> set l" using Cons.prems(2) unfolding ys by simp
    have "xs = ys'" using ax ay xy[THEN conjunct2] by (rule Cons.IH)
    with xy show ?thesis unfolding ys by simp
  qed
qed

lemma cleanLoop_set: "l \<in> set (cleanLoop w ls) \<Longrightarrow> l \<in> set ls"
proof -
  assume m: "l \<in> set (cleanLoop w ls)"
  have s: "subseq (cleanLoop w ls) ls" by (rule cleanLoop_subseq)
  from s m obtain y where "y \<in> set ls" and "l = y" by (rule list_emb_set)
  then show ?thesis by simp
qed

lemma analyze_rawLines:
  assumes "os_Open filename = Inr (Reader lines None)"
    and "analyzeLocalizationFile os_Open filename = (dk, ue, rl, err)"
  shows "rl = lines \<and> err = None"
proof -
  obtain dk' ue' where "analyzeLocalizationFile os_Open filename = (dk', ue', lines, None)"
    using analyze_ok[of os_Open filename lines, OF assms(1)] by blast
  with assms(2) have "(dk, ue, rl, err) = (dk', ue', lines, None)" by simp
  then show ?thesis by simp
qed

lemma reread_lines:
  assumes "os_Open inputFile = Inr (Reader (scanLines content) None)"
    and "analyzeLocalizationFile os_Open inputFile = (duplicateKeys, uniqueEntries, rawLines, err)"
    and "createCleanFile os_MkdirAll os_Create cleanFile uniqueEntries rawLines = (None, calls)"
  shows "(\<forall>l \<in> set (printedLines calls). CHR 0x0A \<notin> set l)
       \<and> scanLines (written calls) = map dropCR (printedLines calls)"
proof -
  have r: "rawLines = scanLines content"
    using analyze_rawLines[of os_Open inputFile "scanLines content", OF assms(1,2)] by simp
  have p: "printedLines calls = cleanLoop Map.empty rawLines"
    using assms(3) by (rule createCleanFile_ok)
  have nl: "\<forall>l \<in> set (printedLines calls). CHR 0x0A \<notin> set l"
  proof
    fix l assume "l \<in> set (printedLines calls)"
    then have "l \<in> set (cleanLoop Map.empty (scanLines content))" by (simp only: p r)
    then have "l \<in> set (scanLines content)" by (rule cleanLoop_set)
    then show "CHR 0x0A \<notin> set l" by (rule scanLines_no_LF)
  qed
  have "scanLines (concat (map (\<lambda>l. l @ [CHR 0x0A]) (printedLines calls)))
      = map dropCR (printedLines calls)"
    using nl by (rule scanLines_written_lines)
  then have "scanLines (written calls) = map dropCR (printedLines calls)"
    by (simp only: written_printedLines)
  with nl show ?thesis by blast
qed

text \<open>
  C5, as the code has it. The second run reads the written file through the scanner, which
  drops a carriage return at the end of a line. So the second run sees the written lines
  without such a carriage return, and it writes the same bytes as the first run exactly
  when no line written by the first run ends in a carriage return.
\<close>

theorem clean_reread_idempotent:
  assumes "os_Open inputFile = Inr (Reader (scanLines content) None)"
    and "analyzeLocalizationFile os_Open inputFile = (duplicateKeys, uniqueEntries, rawLines, err)"
    and "createCleanFile os_MkdirAll os_Create cleanFile uniqueEntries rawLines = (None, calls)"
    and "os_Open2 cleanFile = Inr (Reader (scanLines (written calls)) None)"
    and "analyzeLocalizationFile os_Open2 cleanFile
           = (duplicateKeys2, uniqueEntries2, rawLines2, err2)"
    and "createCleanFile os_MkdirAll2 os_Create2 cleanFile2 uniqueEntries2 rawLines2
           = (None, calls2)"
  shows "rawLines2 = map dropCR (printedLines calls)
       \<and> (written calls2 = written calls
            \<longleftrightarrow> (\<forall>line \<in> set (printedLines calls). \<not> endsInCR line))"
proof -
  let ?ps = "printedLines calls"
  have nl: "\<forall>l \<in> set ?ps. CHR 0x0A \<notin> set l"
    and sc: "scanLines (written calls) = map dropCR ?ps"
    using reread_lines[of os_Open inputFile content, OF assms(1,2,3)] by blast+
  have r2: "rawLines2 = map dropCR ?ps"
    using analyze_rawLines[of os_Open2 cleanFile "scanLines (written calls)", OF assms(4,5)]
    by (simp add: sc)
  have p: "?ps = cleanLoop Map.empty rawLines"
    using assms(3) by (rule createCleanFile_ok)
  have p2: "printedLines calls2 = cleanLoop Map.empty (map dropCR ?ps)"
    using createCleanFile_ok[OF assms(6)] by (simp only: r2)
  have "written calls2 = written calls" if nocr: "\<forall>line \<in> set ?ps. \<not> endsInCR line"
  proof -
    have "map dropCR ?ps = ?ps"
      by (rule map_idI) (simp add: nocr dropCR_no_CR)
    then have "printedLines calls2 = cleanLoop Map.empty ?ps" by (simp only: p2)
    also have "\<dots> = cleanLoop Map.empty (cleanLoop Map.empty rawLines)" by (simp only: p[symmetric])
    also have "\<dots> = cleanLoop Map.empty rawLines" by (rule cleanLoop_idem)
    finally have "printedLines calls2 = ?ps" by (simp only: p[symmetric])
    then show ?thesis by (simp only: written_printedLines)
  qed
  moreover have "\<forall>line \<in> set ?ps. \<not> endsInCR line" if w: "written calls2 = written calls"
  proof -
    have nl2: "\<forall>l \<in> set (printedLines calls2). CHR 0x0A \<notin> set l"
    proof
      fix l assume "l \<in> set (printedLines calls2)"
      then have "l \<in> set (cleanLoop Map.empty (map dropCR ?ps))" by (simp only: p2)
      then have "l \<in> set (map dropCR ?ps)" by (rule cleanLoop_set)
      then obtain x where x: "x \<in> set ?ps" "l = dropCR x" by auto
      with nl have "CHR 0x0A \<notin> set x" by blast
      then show "CHR 0x0A \<notin> set l" using set_dropCR[of x] x(2) by blast
    qed
    from w have "concat (map (\<lambda>l. l @ [CHR 0x0A]) (printedLines calls2))
        = concat (map (\<lambda>l. l @ [CHR 0x0A]) ?ps)"
      by (simp only: written_printedLines)
    with nl2 nl have eq: "printedLines calls2 = ?ps" by (rule written_lines_inj)
    have "subseq (cleanLoop Map.empty (map dropCR ?ps)) (map dropCR ?ps)"
      by (rule cleanLoop_subseq)
    then have "subseq ?ps (map dropCR ?ps)" by (simp only: p2[symmetric] eq)
    moreover have "length ?ps = length (map dropCR ?ps)" by simp
    ultimately have "?ps = map dropCR ?ps" by (rule subseq_same_length)
    then have "map dropCR ?ps = map (\<lambda>x. x) ?ps" by simp
    then have "\<forall>x \<in> set ?ps. dropCR x = x" by (simp only: map_eq_conv)
    then show ?thesis using dropCR_fixed by blast
  qed
  ultimately show ?thesis using r2 by blast
qed

theorem clean_reread_idempotent_witness:
  \<open>written [Create ''out2.strings'', Fprintln ''"A" = "1";'', Fprintln ''// c'', Close]
   = written [Create ''out.strings'', Fprintln ''"A" = "1";'', Fprintln ''// c'', Close]\<close>
proof -
  define content where \<open>content = ''"A" = "1";'' @ [CHR 0x0D, CHR 0x0A] @ ''// c''
      @ [CHR 0x0D, CHR 0x0A] @ ''"A" = "3";'' @ [CHR 0x0D, CHR 0x0A]\<close>
  define calls where \<open>calls = [Create ''out.strings'', Fprintln ''"A" = "1";'', Fprintln ''// c'', Close]\<close>
  define calls2 where \<open>calls2 = [Create ''out2.strings'', Fprintln ''"A" = "1";'', Fprintln ''// c'', Close]\<close>
  define opn :: openFn where "opn = (\<lambda>f. Inr (Reader (scanLines content) None))"
  define opn2 :: openFn where "opn2 = (\<lambda>f. Inr (Reader (scanLines (written calls)) None))"
  have s1: \<open>scanLines content = [''"A" = "1";'', ''// c'', ''"A" = "3";'']\<close>
    unfolding content_def by code_simp
  have s2: \<open>scanLines (written calls) = [''"A" = "1";'', ''// c'']\<close>
    unfolding calls_def by code_simp
  have o1: "opn ''in.strings'' = Inr (Reader (scanLines content) None)"
    by (simp add: opn_def)
  have o2: "opn2 ''out.strings'' = Inr (Reader (scanLines (written calls)) None)"
    by (simp add: opn2_def)
  obtain dk ue where
    a1: "analyzeLocalizationFile opn ''in.strings'' = (dk, ue, scanLines content, None)"
    using analyze_ok[of opn "''in.strings''" "scanLines content", OF o1] by blast
  obtain dk2 ue2 where
    a2: "analyzeLocalizationFile opn2 ''out.strings'' = (dk2, ue2, scanLines (written calls), None)"
    using analyze_ok[of opn2 "''out.strings''" "scanLines (written calls)", OF o2] by blast
  have \<open>createCleanFile (\<lambda>d. None) (\<lambda>f. None) ''out.strings'' Map.empty
           [''"A" = "1";'', ''// c'', ''"A" = "3";'']
         = (None, [Create ''out.strings'', Fprintln ''"A" = "1";'', Fprintln ''// c'', Close])\<close>
    by code_simp
  then have c1: "createCleanFile (\<lambda>d. None) (\<lambda>f. None) ''out.strings'' ue (scanLines content)
         = (None, calls)"
    by (simp add: createCleanFile_def s1 calls_def)
  have \<open>createCleanFile (\<lambda>d. None) (\<lambda>f. None) ''out2.strings'' Map.empty
           [''"A" = "1";'', ''// c'']
         = (None, [Create ''out2.strings'', Fprintln ''"A" = "1";'', Fprintln ''// c'', Close])\<close>
    by code_simp
  then have c2: "createCleanFile (\<lambda>d. None) (\<lambda>f. None) ''out2.strings'' ue2
           (scanLines (written calls)) = (None, calls2)"
    by (simp add: createCleanFile_def s2 calls2_def)
  have nocr: "\<forall>line \<in> set (printedLines calls). \<not> endsInCR line"
    by (simp add: calls_def endsInCR_def)
  from clean_reread_idempotent[of opn "''in.strings''" content dk ue "scanLines content" None
      "\<lambda>d. None" "\<lambda>f. None" "''out.strings''" calls opn2 dk2 ue2 "scanLines (written calls)" None
      "\<lambda>d. None" "\<lambda>f. None" "''out2.strings''" calls2, OF o1 a1 c1 o2 a2 c2] nocr
  have "written calls2 = written calls" by blast
  then show ?thesis by (simp only: calls_def calls2_def)
qed

text \<open>
  The claim as it is written fails on a file whose line ends in two carriage returns and a
  line feed: the scanner drops one carriage return, the first run writes the line with the
  other one, the second run drops that one too and writes a shorter file.
\<close>

theorem clean_idempotent_counterexample:
  \<open>scanLines (''// c'' @ [CHR 0x0D, CHR 0x0D, CHR 0x0A]) = [''// c'' @ [CHR 0x0D]]
   \<and> analyzeLocalizationFile (\<lambda>f. Inr (Reader [''// c'' @ [CHR 0x0D]] None)) ''in.strings''
       = (Map.empty, Map.empty, [''// c'' @ [CHR 0x0D]], None)
   \<and> createCleanFile (\<lambda>d. None) (\<lambda>f. None) ''out.strings'' Map.empty [''// c'' @ [CHR 0x0D]]
       = (None, [Create ''out.strings'', Fprintln (''// c'' @ [CHR 0x0D]), Close])
   \<and> written [Create ''out.strings'', Fprintln (''// c'' @ [CHR 0x0D]), Close]
       = ''// c'' @ [CHR 0x0D, CHR 0x0A]
   \<and> scanLines (''// c'' @ [CHR 0x0D, CHR 0x0A]) = [''// c'']
   \<and> analyzeLocalizationFile (\<lambda>f. Inr (Reader [''// c''] None)) ''out.strings''
       = (Map.empty, Map.empty, [''// c''], None)
   \<and> createCleanFile (\<lambda>d. None) (\<lambda>f. None) ''out2.strings'' Map.empty [''// c'']
       = (None, [Create ''out2.strings'', Fprintln ''// c'', Close])
   \<and> written [Create ''out2.strings'', Fprintln ''// c'', Close] = ''// c'' @ [CHR 0x0A]
   \<and> ''// c'' @ [CHR 0x0A] \<noteq> ''// c'' @ [CHR 0x0D, CHR 0x0A]\<close>
proof -
  have s1: "scanLines (''// c'' @ [CHR 0x0D, CHR 0x0D, CHR 0x0A]) = [''// c'' @ [CHR 0x0D]]"
    by code_simp
  have k1: "classify (''// c'' @ [CHR 0x0D]) = Passthrough" by code_simp
  have k2: "classify ''// c'' = Passthrough" by code_simp
  have a1: "analyzeLocalizationFile (\<lambda>f. Inr (Reader [''// c'' @ [CHR 0x0D]] None)) ''in.strings''
       = (Map.empty, Map.empty, [''// c'' @ [CHR 0x0D]], None)"
    by (simp add: analyzeLocalizationFile_def scanInit_def scanLine_classify k1 del: append.simps)
  have c1: "createCleanFile (\<lambda>d. None) (\<lambda>f. None) ''out.strings'' Map.empty [''// c'' @ [CHR 0x0D]]
       = (None, [Create ''out.strings'', Fprintln (''// c'' @ [CHR 0x0D]), Close])"
    by code_simp
  have w1: "written [Create ''out.strings'', Fprintln (''// c'' @ [CHR 0x0D]), Close]
       = ''// c'' @ [CHR 0x0D, CHR 0x0A]"
    by simp
  have s2: "scanLines (''// c'' @ [CHR 0x0D, CHR 0x0A]) = [''// c'']"
    by code_simp
  have a2: "analyzeLocalizationFile (\<lambda>f. Inr (Reader [''// c''] None)) ''out.strings''
       = (Map.empty, Map.empty, [''// c''], None)"
    by (simp add: analyzeLocalizationFile_def scanInit_def scanLine_classify k2)
  have c2: "createCleanFile (\<lambda>d. None) (\<lambda>f. None) ''out2.strings'' Map.empty [''// c'']
       = (None, [Create ''out2.strings'', Fprintln ''// c'', Close])"
    by code_simp
  have w2: "written [Create ''out2.strings'', Fprintln ''// c'', Close] = ''// c'' @ [CHR 0x0A]"
    by simp
  have ne: "''// c'' @ [CHR 0x0A] \<noteq> ''// c'' @ [CHR 0x0D, CHR 0x0A]"
    by simp
  from s1 a1 c1 w1 s2 a2 c2 w2 ne show ?thesis by (intro conjI)
qed

subsection \<open>Pairs with an empty key or value\<close>

lemma reSpace_not_quote: "list_all reSpace ws \<Longrightarrow> quote \<notin> set ws"
  using reSpace_simps(1) by (auto simp: list_all_iff)

lemma quote_neq: "quote \<noteq> CHR ''=''" "quote \<noteq> CHR '';''" "CHR ''='' \<noteq> quote" "CHR '';'' \<noteq> quote"
  by (simp_all add: quote_def)

lemma count_no_quote: "quote \<notin> set s \<Longrightarrow> count_list s quote = 0"
  by simp

lemma pair_line_quotes:
  assumes "quote \<notin> set pre" "quote \<notin> set key" "quote \<notin> set val" "quote \<notin> set post"
    and "list_all reSpace ws1" "list_all reSpace ws2" "list_all reSpace ws3"
  shows "count_list (pre @ quote # key @ quote # ws1 @ CHR ''='' # ws2 @ quote # val @ quote
            # ws3 @ CHR '';'' # post) quote = 4"
  using assms(1-4) reSpace_not_quote[OF assms(5)] reSpace_not_quote[OF assms(6)]
    reSpace_not_quote[OF assms(7)]
  by (simp add: quote_neq)

lemma matches_quotes:
  assumes "kvPattern_matches s k v"
  shows "4 \<le> count_list s quote" and "\<exists>r. s = quote # r"
proof -
  from assms obtain ws1 ws2 ws3 rest where
    s: "s = quote # k @ quote # ws1 @ CHR ''='' # ws2 @ quote # v @ quote # ws3 @ CHR '';'' # rest"
    unfolding kvPattern_matches_def by blast
  show "4 \<le> count_list s quote" by (simp add: s)
  show "\<exists>r. s = quote # r" by (simp add: s)
qed

lemma split_at_quote:
  assumes "quote \<notin> set a" "quote \<notin> set b" "a @ quote # x = b @ quote # y"
  shows "a = b" and "x = y"
proof -
  have "takeWhile notQuote (a @ quote # x) = a" using assms(1) by (rule takeWhile_notQuote)
  moreover have "takeWhile notQuote (b @ quote # y) = b" using assms(2) by (rule takeWhile_notQuote)
  ultimately show "a = b" using assms(3) by simp
  with assms(3) show "x = y" by simp
qed

lemma matchAt_empty_pair:
  assumes "quote \<notin> set key" "list_all reSpace ws1" "list_all reSpace ws2" "key = [] \<or> val = []"
  shows "kvPattern_matchAt (quote # key @ quote # ws1 @ CHR ''='' # ws2 @ quote # val @ quote # r)
           = None"
proof (cases "key = []")
  case True
  then show ?thesis by (simp add: kvPattern_matchAt_def group_empty)
next
  case False
  with assms(4) have v: "val = []" by simp
  show ?thesis
    unfolding kvPattern_matchAt_def v
    by (simp add: group_quote[OF assms(1) False] dropWhile_reSpace assms(2,3) reSpace_simps
        group_empty)
qed

lemma Find_empty_pair:
  assumes "quote \<notin> set pre" "quote \<notin> set key" "quote \<notin> set val" "quote \<notin> set post"
    and "list_all reSpace ws1" "list_all reSpace ws2" "list_all reSpace ws3"
    and "key = [] \<or> val = []"
  shows "kvPattern_FindStringSubmatch
           (pre @ quote # key @ quote # ws1 @ CHR ''='' # ws2 @ quote # val @ quote
              # ws3 @ CHR '';'' # post) = None"
proof -
  let ?tail = "key @ quote # ws1 @ CHR ''='' # ws2 @ quote # val @ quote # ws3 @ CHR '';'' # post"
  let ?line = "pre @ quote # ?tail"
  have four: "count_list ?line quote = 4"
    using assms(1-7) by (rule pair_line_quotes)
  have "\<not> kvPattern_matches post' k v" if split: "?line = pre' @ post'" for pre' post' k v
  proof
    assume m: "kvPattern_matches post' k v"
    from matches_quotes(2)[OF m] obtain r where r: "post' = quote # r" by blast
    have "count_list ?line quote = count_list pre' quote + count_list post' quote"
      by (simp only: split count_list_append)
    with four matches_quotes(1)[OF m] have "count_list pre' quote = 0" by simp
    then have np: "quote \<notin> set pre'" by (simp add: count_list_0_iff)
    from split r have "pre @ quote # ?tail = pre' @ quote # r" by simp
    from split_at_quote(2)[OF assms(1) np this] have "r = ?tail" by simp
    with r have "post' = quote # ?tail" by simp
    moreover have "kvPattern_matchAt (quote # ?tail) = None"
      using assms(2,5,6,8) by (rule matchAt_empty_pair)
    ultimately show False using matchAt_complete[OF m] by simp
  qed
  then show ?thesis by (simp only: Find_None_matches) blast
qed

text \<open>
  C10, as the code has it. A line made of a part without quote, a quoted key, white
  space, an equals sign, white space, a quoted value, white space, a semicolon and a
  rest without quote, in which the key or the value is empty, has no match of the
  pattern: it is never an entry. The analyzer only appends it to \<open>rawLines\<close>, the
  counter and the checker record nothing for it, and the cleaner copies it.
\<close>

theorem empty_pair_not_entry:
  assumes "line = pre @ quote # key @ quote # ws1 @ CHR ''='' # ws2 @ quote # val @ quote
              # ws3 @ CHR '';'' # post"
    and "quote \<notin> set pre" "quote \<notin> set key" "quote \<notin> set val" "quote \<notin> set post"
    and "list_all reSpace ws1" "list_all reSpace ws2" "list_all reSpace ws3"
    and "key = [] \<or> val = []"
  shows "kvPattern_FindStringSubmatch line = None
       \<and> isPassthrough line
       \<and> (\<not> isCommentOrBlank line \<longrightarrow> classify line = Unrecognized)
       \<and> scanLine (ke, dk, ue, rl, n) line = (ke, dk, ue, rl @ [line], n + 1)
       \<and> countLine (u, t) line = (u, t)
       \<and> findLine k0 (occ, n) line = (occ, n + 1)
       \<and> cleanLoop w (line # rest) = line # cleanLoop w rest"
proof -
  have f: "kvPattern_FindStringSubmatch line = None"
    unfolding assms(1) using assms(2-9) by (rule Find_empty_pair)
  then have c: "classify line = Passthrough \<or> classify line = Unrecognized"
    by (simp add: classify_def)
  then have p: "isPassthrough line" by (simp add: isPassthrough_def)
  have u: "\<not> isCommentOrBlank line \<longrightarrow> classify line = Unrecognized"
    using f by (simp add: classify_def)
  have s: "scanLine (ke, dk, ue, rl, n) line = (ke, dk, ue, rl @ [line], n + 1)"
    using c by (auto simp: scanLine_classify)
  have cn: "countLine (u, t) line = (u, t)"
    using c by (auto simp: countLine_classify)
  have fl: "findLine k0 (occ, n) line = (occ, n + 1)"
    using c by (auto simp: findLine_classify)
  have cl: "cleanLoop w (line # rest) = line # cleanLoop w rest"
    using p by (rule cleanLoop_other)
  from f p u s cn fl cl show ?thesis by blast
qed

theorem empty_pair_not_entry_witness:
  \<open>classify ''"k" = "";'' = Unrecognized
   \<and> classify ''  "" = "v" ; // note'' = Unrecognized
   \<and> countLine (Map.empty, 0) ''"k" = "";'' = (Map.empty, 0)
   \<and> cleanLoop Map.empty [''"k" = "";''] = [''"k" = "";'']\<close>
proof -
  have l1: \<open>''"k" = "";'' = [] @ quote # ''k'' @ quote # '' '' @ CHR ''='' # '' '' @ quote # [] @ quote
              # [] @ CHR '';'' # []\<close>
    by (simp add: quote_def)
  have l2: \<open>''  "" = "v" ; // note'' = ''  '' @ quote # [] @ quote # '' '' @ CHR ''='' # '' '' @ quote
              # ''v'' @ quote # '' '' @ CHR '';'' # '' // note''\<close>
    by (simp add: quote_def)
  have sp: "list_all reSpace '' ''" "list_all reSpace []"
    by (simp_all add: reSpace_def)
  have q: "quote \<notin> set []" "quote \<notin> set ''k''" "quote \<notin> set ''v''" "quote \<notin> set ''  ''"
    "quote \<notin> set '' // note''"
    by (simp_all add: quote_def)
  have nb1: \<open>\<not> isCommentOrBlank ''"k" = "";''\<close> by code_simp
  have nb2: \<open>\<not> isCommentOrBlank ''  "" = "v" ; // note''\<close> by code_simp
  note t1 = empty_pair_not_entry[OF l1 q(1) q(2) q(1) q(1) sp(1) sp(1) sp(2), where w = Map.empty
      and rest = "[]" and u = Map.empty and t = 0]
  note t2 = empty_pair_not_entry[OF l2 q(4) q(1) q(3) q(5) sp(1) sp(1) sp(1)]
  from t1 nb1 have \<open>classify ''"k" = "";'' = Unrecognized\<close>
    and \<open>countLine (Map.empty, 0) ''"k" = "";'' = (Map.empty, 0)\<close>
    and \<open>cleanLoop Map.empty [''"k" = "";''] = [''"k" = "";'']\<close>
    by simp_all
  moreover from t2 nb2 have \<open>classify ''  "" = "v" ; // note'' = Unrecognized\<close>
    by simp
  ultimately show ?thesis by blast
qed

text \<open>
  The claim as it is written fails on a line whose first quoted pair has an empty key
  and which goes on with a second pair: the search goes on and finds the second pair, so
  the line is an entry with the key \<open>a\<close>; the counter counts it, and the cleaner drops it
  when \<open>a\<close> was written before.
\<close>

theorem empty_pair_counterexample:
  \<open>''"" = "v"; "a" = "b";''
     = [] @ quote # [] @ quote # '' '' @ CHR ''='' # '' '' @ quote # ''v'' @ quote # []
         @ CHR '';'' # '' "a" = "b";''
   \<and> \<not> isCommentOrBlank ''"" = "v"; "a" = "b";''
   \<and> classify ''"" = "v"; "a" = "b";'' = Entry ''a'' ''b''
   \<and> snd (countLine (Map.empty, 0) ''"" = "v"; "a" = "b";'') = 1
   \<and> cleanLoop Map.empty [''"a" = "x";'', ''"" = "v"; "a" = "b";''] = [''"a" = "x";'']\<close>
proof -
  have a: \<open>''"" = "v"; "a" = "b";''
     = [] @ quote # [] @ quote # '' '' @ CHR ''='' # '' '' @ quote # ''v'' @ quote # []
         @ CHR '';'' # '' "a" = "b";''\<close>
    by (simp add: quote_def)
  have b: \<open>\<not> isCommentOrBlank ''"" = "v"; "a" = "b";''\<close> by code_simp
  have c: \<open>classify ''"" = "v"; "a" = "b";'' = Entry ''a'' ''b''\<close> by code_simp
  have d: \<open>snd (countLine (Map.empty, 0) ''"" = "v"; "a" = "b";'') = 1\<close>
    by (simp add: countLine_classify c)
  have e: \<open>cleanLoop Map.empty [''"a" = "x";'', ''"" = "v"; "a" = "b";''] = [''"a" = "x";'']\<close>
    by code_simp
  from a b c d e show ?thesis by blast
qed

end
